theory Spec2Isabelle
  imports Main "HOL-Library.Sublist"
begin

section \<open>Exceptions and printed lines\<close>

text \<open>
  The exceptions the program can meet, as values. All of them are subclasses of Python's
  \<open>Exception\<close>, so the handler \<open>except Exception\<close> of \<open>find_date_in_text\<close> catches every
  one; \<open>except json.JSONDecodeError\<close> of \<open>load_schedule\<close> catches only \<open>JSONDecodeError\<close>.
  A function that can raise returns \<open>error + 'a\<close>, with \<open>Inl\<close> for the exception.
\<close>

datatype error =
    ValueError | KeyError | IndexError | TypeError | AttributeError
  | OverflowError | JSONDecodeError | RecursionError

section \<open>The library's dates\<close>

text \<open>
  \<open>datetime\<close> objects of the program always carry the time 00:00:00 (they come from
  \<open>strptime\<close> with a date-only format, from \<open>datetime(year, month, day)\<close>, or from adding
  whole days), so a value is its three date fields. The arithmetic follows the standard
  library's \<open>datetime.py\<close>: proleptic Gregorian ordinals, 0001-01-01 being day 1.
\<close>

record datetime =
  dt_year :: int
  dt_month :: int
  dt_day :: int

definition MAXORDINAL :: int where
  "MAXORDINAL = 3652059"

definition is_leap :: "int \<Rightarrow> bool" where
  "is_leap y \<longleftrightarrow> y mod 4 = 0 \<and> (y mod 400 = 0 \<or> y mod 100 \<noteq> 0)"

definition days_before_year :: "int \<Rightarrow> int" where
  "days_before_year y = (let y1 = y - 1 in y1 * 365 + y1 div 4 - y1 div 100 + y1 div 400)"

definition DAYS_IN_MONTH :: "int \<Rightarrow> int" where
  "DAYS_IN_MONTH m =
     (if m = 2 then 28 else if m = 4 \<or> m = 6 \<or> m = 9 \<or> m = 11 then 30 else 31)"

definition DAYS_BEFORE_MONTH :: "int \<Rightarrow> int" where
  "DAYS_BEFORE_MONTH m =
     (if m = 1 then 0 else if m = 2 then 31 else if m = 3 then 59 else if m = 4 then 90
      else if m = 5 then 120 else if m = 6 then 151 else if m = 7 then 181
      else if m = 8 then 212 else if m = 9 then 243 else if m = 10 then 273
      else if m = 11 then 304 else 334)"

definition days_in_month :: "int \<Rightarrow> int \<Rightarrow> int" where
  "days_in_month y m = (if m = 2 \<and> is_leap y then 29 else DAYS_IN_MONTH m)"

definition days_before_month :: "int \<Rightarrow> int \<Rightarrow> int" where
  "days_before_month y m = DAYS_BEFORE_MONTH m + (if m > 2 \<and> is_leap y then 1 else 0)"

definition ymd2ord :: "int \<Rightarrow> int \<Rightarrow> int \<Rightarrow> int" where
  "ymd2ord y m d = days_before_year y + days_before_month y m + d"

text \<open>\<open>_ord2ymd\<close>: the year by 400-, 100-, 4- and 1-year cycles, then the month by an
  estimate \<open>(n + 50) >> 5\<close> that is corrected downwards when it is one too large.\<close>

definition ord2ymd :: "int \<Rightarrow> int \<times> int \<times> int" where
  "ord2ymd n0 =
     (let n = n0 - 1;
          n400 = n div 146097; n = n mod 146097;
          n100 = n div 36524; n = n mod 36524;
          n4 = n div 1461; n = n mod 1461;
          n1 = n div 365; n = n mod 365;
          y = n400 * 400 + 1 + n100 * 100 + n4 * 4 + n1
      in if n1 = 4 \<or> n100 = 4 then (y - 1, 12, 31)
         else
           let leapyear = (n1 = 3 \<and> (n4 \<noteq> 24 \<or> n100 = 3));
               m = (n + 50) div 32;
               preceding = DAYS_BEFORE_MONTH m + (if m > 2 \<and> leapyear then 1 else 0)
           in if preceding > n
              then (y, m - 1,
                    n - (preceding - (DAYS_IN_MONTH (m - 1)
                                       + (if m - 1 = 2 \<and> leapyear then 1 else 0))) + 1)
              else (y, m, n - preceding + 1))"

definition valid_date :: "int \<Rightarrow> int \<Rightarrow> int \<Rightarrow> bool" where
  "valid_date y m d \<longleftrightarrow>
     1 \<le> y \<and> y \<le> 9999 \<and> 1 \<le> m \<and> m \<le> 12 \<and> 1 \<le> d \<and> d \<le> days_in_month y m"

text \<open>\<open>datetime(year, month, day)\<close>: \<open>ValueError\<close> unless the fields name a day of the
  calendar in the years 1 to 9999.\<close>

definition datetime_new :: "int \<Rightarrow> int \<Rightarrow> int \<Rightarrow> error + datetime" where
  "datetime_new y m d =
     (if valid_date y m d then Inr \<lparr>dt_year = y, dt_month = m, dt_day = d\<rparr>
      else Inl ValueError)"

definition toordinal :: "datetime \<Rightarrow> int" where
  "toordinal t = ymd2ord (dt_year t) (dt_month t) (dt_day t)"

definition fromordinal :: "int \<Rightarrow> datetime" where
  "fromordinal n = (case ord2ymd n of (y, m, d) \<Rightarrow> \<lparr>dt_year = y, dt_month = m, dt_day = d\<rparr>)"

text \<open>\<open>weekday()\<close>: Monday is 0, Sunday is 6.\<close>

definition weekday :: "datetime \<Rightarrow> int" where
  "weekday t = (toordinal t + 6) mod 7"

text \<open>\<open>t + timedelta(days=n)\<close>: the date \<open>n\<close> days on, \<open>OverflowError\<close> when that leaves
  the years 1 to 9999 (or when \<open>n\<close> is too large for a \<open>timedelta\<close>, which lies outside
  that range as well).\<close>

definition add_days :: "datetime \<Rightarrow> int \<Rightarrow> error + datetime" where
  "add_days t n =
     (let days = toordinal t + n
      in if 0 < days \<and> days \<le> MAXORDINAL then Inr (fromordinal days) else Inl OverflowError)"

section \<open>The schedule\<close>

text \<open>
  \<open>MY_SCHEDULE\<close> in the format the docstring of \<open>load_schedule\<close> expects,
  \<^verbatim>\<open>{"CS 363": [1, 3], "MATH 205": [0, 2, 4]}\<close>: a dictionary from course keys to lists of
  weekday numbers, as the list of its items in iteration (insertion) order.
\<close>

type_synonym schedule = "(string \<times> int list) list"

text \<open>\<open>key in course_code\<close> on strings: \<open>key\<close> occurs in \<open>course_code\<close> as a contiguous
  substring.\<close>

fun starts_with :: "string \<Rightarrow> string \<Rightarrow> bool" where
  "starts_with [] s = True"
| "starts_with (k # ks) [] = False"
| "starts_with (k # ks) (c # cs) = (k = c \<and> starts_with ks cs)"

fun str_in :: "string \<Rightarrow> string \<Rightarrow> bool" where
  "str_in key [] = (key = [])"
| "str_in key (c # cs) = (starts_with key (c # cs) \<or> str_in key cs)"

text \<open>Lines 31 to 35: the loop over the keys, leaving at the first key found in the
  course code; \<open>None\<close> is the initial \<open>base_code = None\<close>.\<close>

fun base_code_loop :: "schedule \<Rightarrow> string \<Rightarrow> string option" where
  "base_code_loop [] course_code = None"
| "base_code_loop ((key, days) # rest) course_code =
     (if str_in key course_code then Some key else base_code_loop rest course_code)"

text \<open>Lines 44 to 48: \<open>days_ahead\<close> after the loop over the sorted class days.\<close>

fun days_ahead_loop :: "int list \<Rightarrow> int \<Rightarrow> int" where
  "days_ahead_loop [] posted_day_idx = 0"
| "days_ahead_loop (d # rest) posted_day_idx =
     (if d > posted_day_idx then d - posted_day_idx else days_ahead_loop rest posted_day_idx)"

text \<open>
  \<open>get_next_class_date\<close>, with the global \<open>MY_SCHEDULE\<close> as its first argument. Python's
  \<open>not base_code\<close> holds for \<open>None\<close> and for the empty string; \<open>class_days[0]\<close> raises
  \<open>IndexError\<close> on an empty list.
\<close>

definition get_next_class_date :: "schedule \<Rightarrow> string \<Rightarrow> datetime \<Rightarrow> error + datetime option" where
  "get_next_class_date MY_SCHEDULE course_code posted_date_obj =
     (if MY_SCHEDULE = [] then Inr None
      else
        (case base_code_loop MY_SCHEDULE course_code of
           None \<Rightarrow> Inr None
         | Some base_code \<Rightarrow>
             if base_code = [] then Inr None
             else
               (case map_of MY_SCHEDULE base_code of
                  None \<Rightarrow> Inl KeyError
                | Some v \<Rightarrow>
                    (let class_days = sort v;
                         posted_day_idx = weekday posted_date_obj;
                         days_ahead = days_ahead_loop class_days posted_day_idx
                     in if days_ahead = 0
                        then
                          (case class_days of
                             [] \<Rightarrow> Inl IndexError
                           | first # _ \<Rightarrow>
                               map_sum id Some
                                 (add_days posted_date_obj ((7 - posted_day_idx) + first)))
                        else map_sum id Some (add_days posted_date_obj days_ahead)))))"


section \<open>The configuration\<close>

text \<open>
  What \<open>json.loads\<close> can return. \<open>MY_SCHEDULE\<close> is whatever the configured text decodes
  to; a \<^typ>\<open>schedule\<close> is the content of a \<open>JObject\<close> whose values are arrays of integers.
\<close>

datatype json =
    JNull | JBool bool | JInt int | JFloat string | JString string
  | JArray "json list" | JObject "(string \<times> json) list"

datatype printed =
    Warning_MY_TIMETABLE
  | Found_Next_Class string datetime

text \<open>
  \<open>load_schedule\<close>. Its argument is the outcome of
  \<^verbatim>\<open>json.loads(os.environ.get("MY_TIMETABLE", "{}"))\<close>, the decoded value or the exception
  the decoder raised; the result is what the function returns or raises, with the lines it
  printed. Only \<open>JSONDecodeError\<close> is handled.
\<close>

definition load_schedule :: "error + json \<Rightarrow> (error + json) \<times> printed list" where
  "load_schedule loads_result =
     (case loads_result of
        Inr v \<Rightarrow> (Inr v, [])
      | Inl e \<Rightarrow>
          if e = JSONDecodeError then (Inr (JObject []), [Warning_MY_TIMETABLE])
          else (Inl e, []))"

section \<open>Characters and text\<close>

text \<open>
  A text is a \<^typ>\<open>string\<close>: the model covers Python strings of code points below 256, a
  \<^typ>\<open>char\<close> being the code point. The classes are those of \<open>re\<close> on \<open>str\<close> patterns
  (Unicode mode) restricted to that range.
\<close>

definition ord :: "char \<Rightarrow> nat" where
  "ord c = of_char c"

definition is_digit :: "char \<Rightarrow> bool" where
  "is_digit c \<longleftrightarrow> 48 \<le> ord c \<and> ord c \<le> 57"

definition is_space :: "char \<Rightarrow> bool" where
  "is_space c \<longleftrightarrow>
     (9 \<le> ord c \<and> ord c \<le> 13) \<or> (28 \<le> ord c \<and> ord c \<le> 32) \<or> ord c = 133 \<or> ord c = 160"

definition is_ascii_letter :: "char \<Rightarrow> bool" where
  "is_ascii_letter c \<longleftrightarrow> (65 \<le> ord c \<and> ord c \<le> 90) \<or> (97 \<le> ord c \<and> ord c \<le> 122)"

text \<open>\<open>\w\<close>: alphanumeric (letters, decimal digits and other numeric characters) or the
  underscore.\<close>

definition is_word :: "char \<Rightarrow> bool" where
  "is_word c \<longleftrightarrow>
     is_digit c \<or> is_ascii_letter c \<or> ord c = 95
     \<or> ord c = 170 \<or> ord c = 178 \<or> ord c = 179 \<or> ord c = 181 \<or> ord c = 185 \<or> ord c = 186
     \<or> (188 \<le> ord c \<and> ord c \<le> 190)
     \<or> (192 \<le> ord c \<and> ord c \<le> 214) \<or> (216 \<le> ord c \<and> ord c \<le> 246) \<or> 248 \<le> ord c"

text \<open>\<open>str.lower()\<close> on one character: the upper-case letters of the range lie 32 below
  their lower-case forms, which is bit 5 of the code point.\<close>

definition lower :: "char \<Rightarrow> char" where
  "lower c =
     (if (65 \<le> ord c \<and> ord c \<le> 90) \<or> (192 \<le> ord c \<and> ord c \<le> 222 \<and> ord c \<noteq> 215)
      then Char (digit0 c) (digit1 c) (digit2 c) (digit3 c) (digit4 c) True (digit6 c) (digit7 c)
      else c)"

text \<open>\<open>int(v)\<close> on \<open>None\<close> or a string: \<open>None\<close> raises \<open>TypeError\<close>; a string is stripped
  of surrounding whitespace (for \<open>int\<close> the separators 28 to 31 are not whitespace) and
  read as an optional sign and decimal digits, single underscores allowed between digits;
  anything else raises \<open>ValueError\<close>.\<close>

definition is_int_space :: "char \<Rightarrow> bool" where
  "is_int_space c \<longleftrightarrow> (9 \<le> ord c \<and> ord c \<le> 13) \<or> ord c = 32 \<or> ord c = 133 \<or> ord c = 160"

definition digit_val :: "char \<Rightarrow> int" where
  "digit_val c = int (ord c) - 48"

definition strip :: "string \<Rightarrow> string" where
  "strip s = rev (dropWhile is_int_space (rev (dropWhile is_int_space s)))"

fun digits_underscores :: "string \<Rightarrow> bool" where
  "digits_underscores [] = False"
| "digits_underscores [c] = is_digit c"
| "digits_underscores (c # d # r) =
     (is_digit c \<and> (if d = CHR ''_'' then digits_underscores r else digits_underscores (d # r)))"

definition digits_value :: "string \<Rightarrow> int" where
  "digits_value s = foldl (\<lambda>acc c. 10 * acc + digit_val c) 0 (filter is_digit s)"

definition int_py :: "string option \<Rightarrow> error + int" where
  "int_py v =
     (case v of
        None \<Rightarrow> Inl TypeError
      | Some s \<Rightarrow>
          (case strip s of
             [] \<Rightarrow> Inl ValueError
           | c # r \<Rightarrow>
               if c = CHR ''-'' then
                 (if digits_underscores r then Inr (- digits_value r) else Inl ValueError)
               else if c = CHR ''+'' then
                 (if digits_underscores r then Inr (digits_value r) else Inl ValueError)
               else
                 (if digits_underscores (c # r) then Inr (digits_value (c # r))
                  else Inl ValueError)))"

text \<open>Sequencing of computations that can raise: the first exception ends the rest.\<close>

definition and_then :: "error + 'a \<Rightarrow> ('a \<Rightarrow> error + 'b) \<Rightarrow> error + 'b" where
  "and_then r f = (case r of Inl e \<Rightarrow> Inl e | Inr x \<Rightarrow> f x)"

section \<open>Regular expressions\<close>

text \<open>
  The part of \<open>re\<close> the patterns of the program and of \<open>strptime\<close> use, with \<open>re.IGNORECASE\<close> built in: literals compare
  by \<^const>\<open>lower\<close>, and \<open>[a-z]\<close> is the class of ASCII letters (\<open>Range\<close> is only used for
  ranges of digits, which have no case). Matching is Python's
  backtracking search: \<open>matches r s\<close> lists the states in which \<open>r\<close> can end when started in
  \<open>s\<close>, in the order backtracking tries them (greedy repetition longest first, an optional
  part present first, alternatives left to right), so the head of the list is the match
  that \<open>re\<close> reports.
\<close>

datatype cclass = Digit | Space | Letter

datatype regex =
    Eps
  | Lit char
  | Cls cclass
  | Range char char
  | Seq regex regex
  | Alt regex regex
  | Opt regex
  | Star cclass
  | Group nat regex
  | WordB

fun class_has :: "cclass \<Rightarrow> char \<Rightarrow> bool" where
  "class_has Digit c = is_digit c"
| "class_has Space c = is_space c"
| "class_has Letter c = is_ascii_letter c"

text \<open>A position in the text is the character before it (if any) and the text from it on;
  a state adds the groups captured so far, the latest capture of a group first.\<close>

type_synonym pos = "char option \<times> string"
type_synonym mstate = "pos \<times> (nat \<times> string) list"

fun star_class :: "cclass \<Rightarrow> char option \<Rightarrow> string \<Rightarrow> pos list" where
  "star_class k p [] = [(p, [])]"
| "star_class k p (c # cs) =
     (if class_has k c then star_class k (Some c) cs @ [(p, c # cs)] else [(p, c # cs)])"

definition word_before :: "char option \<Rightarrow> bool" where
  "word_before p = (case p of None \<Rightarrow> False | Some c \<Rightarrow> is_word c)"

definition word_after :: "string \<Rightarrow> bool" where
  "word_after r = (case r of [] \<Rightarrow> False | c # _ \<Rightarrow> is_word c)"

fun matches :: "regex \<Rightarrow> mstate \<Rightarrow> mstate list" where
  "matches Eps s = [s]"
| "matches (Lit a) ((p, r), g) =
     (case r of [] \<Rightarrow> [] | c # cs \<Rightarrow> if lower c = lower a then [((Some c, cs), g)] else [])"
| "matches (Cls k) ((p, r), g) =
     (case r of [] \<Rightarrow> [] | c # cs \<Rightarrow> if class_has k c then [((Some c, cs), g)] else [])"
| "matches (Range lo hi) ((p, r), g) =
     (case r of
        [] \<Rightarrow> []
      | c # cs \<Rightarrow> if ord lo \<le> ord c \<and> ord c \<le> ord hi then [((Some c, cs), g)] else [])"
| "matches (Seq a b) s = concat (map (matches b) (matches a s))"
| "matches (Alt a b) s = matches a s @ matches b s"
| "matches (Opt a) s = matches a s @ [s]"
| "matches (Star k) ((p, r), g) = map (\<lambda>q. (q, g)) (star_class k p r)"
| "matches (Group n a) ((p, r), g) =
     map (\<lambda>((p', r'), g'). ((p', r'), (n, take (length r - length r') r) # g'))
       (matches a ((p, r), g))"
| "matches WordB ((p, r), g) = (if word_before p \<noteq> word_after r then [((p, r), g)] else [])"

text \<open>\<open>re.search\<close>: the first match at the leftmost position that has one.\<close>

fun search_from :: "regex \<Rightarrow> char option \<Rightarrow> string \<Rightarrow> mstate option" where
  "search_from re p [] = (case matches re ((p, []), []) of [] \<Rightarrow> None | m # _ \<Rightarrow> Some m)"
| "search_from re p (c # cs) =
     (case matches re ((p, c # cs), []) of
        [] \<Rightarrow> search_from re (Some c) cs
      | m # _ \<Rightarrow> Some m)"

definition re_search :: "regex \<Rightarrow> string \<Rightarrow> mstate option" where
  "re_search re text = search_from re None text"

text \<open>\<open>match.group(n)\<close>: \<open>None\<close> for a group that took no part in the match.\<close>

definition group :: "mstate \<Rightarrow> nat \<Rightarrow> string option" where
  "group m n = map_of (snd m) n"

definition lits :: "string \<Rightarrow> regex" where
  "lits s = foldr (\<lambda>c r. Seq (Lit c) r) s Eps"

definition seqs :: "regex list \<Rightarrow> regex" where
  "seqs rs = foldr Seq rs Eps"

definition alts :: "regex \<Rightarrow> regex list \<Rightarrow> regex" where
  "alts r rs = foldl Alt r rs"

definition Plus :: "cclass \<Rightarrow> regex" where
  "Plus k = Seq (Cls k) (Star k)"

text \<open>\<^verbatim>\<open>\b(next\s+class|next\s+lecture|next\s+session)\b\<close>, the group first.\<close>

definition next_class_body :: regex where
  "next_class_body =
     alts (seqs [lits ''next'', Plus Space, lits ''class''])
       [seqs [lits ''next'', Plus Space, lits ''lecture''],
        seqs [lits ''next'', Plus Space, lits ''session'']]"

definition next_class_pattern :: regex where
  "next_class_pattern = seqs [WordB, Group 1 next_class_body, WordB]"

text \<open>\<^verbatim>\<open>(Jan|Feb|Mar|Apr|May|Jun|Jul|Aug|Sep|Oct|Nov|Dec)\<close>, \<^verbatim>\<open>(?:st|nd|rd|th)?\<close>,
  \<^verbatim>\<open>(\d{1,2})\<close> and \<^verbatim>\<open>(\d{4})?\<close>, the parts the two date patterns share.\<close>

definition month_group :: "nat \<Rightarrow> regex" where
  "month_group n =
     Group n (alts (lits ''Jan'')
                [lits ''Feb'', lits ''Mar'', lits ''Apr'', lits ''May'', lits ''Jun'',
                 lits ''Jul'', lits ''Aug'', lits ''Sep'', lits ''Oct'', lits ''Nov'',
                 lits ''Dec''])"

definition ordinal_suffix :: regex where
  "ordinal_suffix = Opt (alts (lits ''st'') [lits ''nd'', lits ''rd'', lits ''th''])"

definition day_group :: "nat \<Rightarrow> regex" where
  "day_group n = Group n (Seq (Cls Digit) (Opt (Cls Digit)))"

definition year_group :: "nat \<Rightarrow> regex" where
  "year_group n = Opt (Group n (seqs [Cls Digit, Cls Digit, Cls Digit, Cls Digit]))"

text \<open>\<^verbatim>\<open>(\d{1,2})(?:st|nd|rd|th)?\s+(Jan|...|Dec)[a-z]*\s*,?\s*(\d{4})?\<close>\<close>

definition pattern1 :: regex where
  "pattern1 =
     seqs [day_group 1, ordinal_suffix, Plus Space, month_group 2, Star Letter,
           Star Space, Opt (Lit (CHR '','')), Star Space, year_group 3]"

text \<open>\<^verbatim>\<open>(Jan|...|Dec)[a-z]*\s+(\d{1,2})(?:st|nd|rd|th)?\s*,?\s*(\d{4})?\<close>\<close>

definition pattern2 :: regex where
  "pattern2 =
     seqs [month_group 1, Star Letter, Plus Space, day_group 2, ordinal_suffix,
           Star Space, Opt (Lit (CHR '','')), Star Space, year_group 3]"


section \<open>Parsing the posted date\<close>

text \<open>
  \<^verbatim>\<open>datetime.strptime(s, "%Y-%m-%d")\<close>. The library turns the format into the pattern
  \<^verbatim>\<open>(?P<Y>\d\d\d\d)-(?P<m>1[0-2]|0[1-9]|[1-9])-(?P<d>3[0-1]|[1-2]\d|0[1-9]|[1-9]| [1-9])\<close>,
  matches it at the start of \<open>s\<close>, and raises \<open>ValueError\<close> when it does not match, when
  text remains after the match ("unconverted data remains"), or when the fields are not a
  date.
\<close>

definition strptime_year :: regex where
  "strptime_year = Group 1 (seqs [Cls Digit, Cls Digit, Cls Digit, Cls Digit])"

definition strptime_month :: regex where
  "strptime_month =
     Group 2 (alts (seqs [Lit (CHR ''1''), Range (CHR ''0'') (CHR ''2'')])
                [seqs [Lit (CHR ''0''), Range (CHR ''1'') (CHR ''9'')],
                 Range (CHR ''1'') (CHR ''9'')])"

definition strptime_day :: regex where
  "strptime_day =
     Group 3 (alts (seqs [Lit (CHR ''3''), Range (CHR ''0'') (CHR ''1'')])
                [seqs [Range (CHR ''1'') (CHR ''2''), Cls Digit],
                 seqs [Lit (CHR ''0''), Range (CHR ''1'') (CHR ''9'')],
                 Range (CHR ''1'') (CHR ''9''),
                 seqs [Lit (CHR '' ''), Range (CHR ''1'') (CHR ''9'')]])"

definition strptime_pattern :: regex where
  "strptime_pattern =
     seqs [strptime_year, Lit (CHR ''-''), strptime_month, Lit (CHR ''-''), strptime_day]"

definition strptime :: "string \<Rightarrow> error + datetime" where
  "strptime data_string =
     (case matches strptime_pattern ((None, data_string), []) of
        [] \<Rightarrow> Inl ValueError
      | found # _ \<Rightarrow>
          if snd (fst found) \<noteq> [] then Inl ValueError
          else and_then (int_py (group found 1)) (\<lambda>y.
               and_then (int_py (group found 2)) (\<lambda>m.
               and_then (int_py (group found 3)) (\<lambda>d. datetime_new y m d))))"

section \<open>The date of an announcement\<close>

text \<open>The dictionary \<open>months\<close> and the lookup \<^verbatim>\<open>months[month_str.lower()[:3]]\<close>:
  \<open>AttributeError\<close> when \<open>month_str\<close> is \<open>None\<close>, \<open>KeyError\<close> when the key is absent.\<close>

definition months :: "(string \<times> int) list" where
  "months =
     [(''jan'', 1), (''feb'', 2), (''mar'', 3), (''apr'', 4), (''may'', 5), (''jun'', 6),
      (''jul'', 7), (''aug'', 8), (''sep'', 9), (''oct'', 10), (''nov'', 11), (''dec'', 12)]"

definition month_of :: "string option \<Rightarrow> error + int" where
  "month_of month_str =
     (case month_str of
        None \<Rightarrow> Inl AttributeError
      | Some s \<Rightarrow>
          (case map_of months (take 3 (map lower s)) of
             None \<Rightarrow> Inl KeyError
           | Some m \<Rightarrow> Inr m))"

text \<open>Lines 91 to 97: the year. \<open>now\<close> is the value of \<open>datetime.now()\<close>, read once for the
  call; \<open>if year_str\<close> fails for \<open>None\<close> and for the empty string.\<close>

definition year_of :: "datetime \<Rightarrow> string option \<Rightarrow> int \<Rightarrow> error + int" where
  "year_of now year_str month =
     (if year_str \<noteq> None \<and> year_str \<noteq> Some []
      then int_py year_str
      else if month < dt_month now \<and> dt_month now - month > 6
           then Inr (dt_year now + 1)
           else Inr (dt_year now))"

text \<open>Lines 85 to 99, from the three values taken out of the match.\<close>

definition date_of_match ::
  "datetime \<Rightarrow> string option \<Rightarrow> string option \<Rightarrow> string option \<Rightarrow> error + datetime"
where
  "date_of_match now day_str month_str year_str =
     and_then (int_py day_str) (\<lambda>day.
     and_then (month_of month_str) (\<lambda>month.
     and_then (year_of now year_str month) (\<lambda>year.
       datetime_new year month day)))"

text \<open>Lines 73 to 83: what the \<open>if\<close>/\<open>elif\<close> takes out of the match, as the strings of
  the day, the month and the year: from pattern 1 where it matches, otherwise from
  pattern 2; \<open>None\<close> when neither matches.\<close>

definition explicit_match :: "string \<Rightarrow> (string option \<times> string option \<times> string option) option"
where
  "explicit_match text =
     (case re_search pattern1 text of
        Some match1 \<Rightarrow> Some (group match1 1, group match1 2, group match1 3)
      | None \<Rightarrow>
          (case re_search pattern2 text of
             Some match2 \<Rightarrow> Some (group match2 2, group match2 1, group match2 3)
           | None \<Rightarrow> None))"

text \<open>The body of the \<open>try\<close> statement, lines 77 to 99.\<close>

definition explicit_date_try :: "datetime \<Rightarrow> string \<Rightarrow> datetime \<Rightarrow> error + datetime" where
  "explicit_date_try now text posted_date_obj =
     (case explicit_match text of
        None \<Rightarrow> Inr posted_date_obj
      | Some (day_str, month_str, year_str) \<Rightarrow> date_of_match now day_str month_str year_str)"

text \<open>The \<open>try\<close> statement with its handler \<open>except Exception: return posted_date_obj\<close>.\<close>

definition explicit_date :: "datetime \<Rightarrow> string \<Rightarrow> datetime \<Rightarrow> datetime" where
  "explicit_date now text posted_date_obj =
     (case explicit_date_try now text posted_date_obj of
        Inl e \<Rightarrow> posted_date_obj
      | Inr d \<Rightarrow> d)"

text \<open>
  \<open>find_date_in_text\<close>, with the global \<open>MY_SCHEDULE\<close> and the clock \<open>datetime.now()\<close> as
  its first two arguments. The result is the value returned or the exception raised, and
  the lines printed. The first \<open>strptime\<close> reads the whole of \<open>default_date_str\<close>, the
  second its first ten characters; the search for "next class" and the call of
  \<open>get_next_class_date\<close> stand before the \<open>try\<close> statement.
\<close>

definition find_date_in_text ::
  "schedule \<Rightarrow> datetime \<Rightarrow> string \<Rightarrow> string \<Rightarrow> string \<Rightarrow> (error + datetime) \<times> printed list"
where
  "find_date_in_text MY_SCHEDULE now text default_date_str course_code =
     (if text = [] then (strptime default_date_str, [])
      else
        (case strptime (take 10 default_date_str) of
           Inl e \<Rightarrow> (Inl e, [])
         | Inr posted_date_obj \<Rightarrow>
             if re_search next_class_pattern text \<noteq> None
             then
               (case get_next_class_date MY_SCHEDULE course_code posted_date_obj of
                  Inl e \<Rightarrow> (Inl e, [])
                | Inr None \<Rightarrow> (Inr (explicit_date now text posted_date_obj), [])
                | Inr (Some next_class_date) \<Rightarrow>
                    (Inr next_class_date, [Found_Next_Class course_code next_class_date]))
             else (Inr (explicit_date now text posted_date_obj), [])))"


section \<open>Notions of the specification\<close>

text \<open>
  The offset of the next class as the specification words it: the distance to the
  smallest stored weekday strictly greater than the reference weekday if there is one,
  otherwise the rest of the week plus the smallest stored weekday.
\<close>

definition next_class_offset :: "int list \<Rightarrow> int \<Rightarrow> int" where
  "next_class_offset ds refDay =
     (if filter (\<lambda>d. refDay < d) ds \<noteq> []
      then Min (set (filter (\<lambda>d. refDay < d) ds)) - refDay
      else (7 - refDay) + Min (set ds))"

text \<open>A decoded configuration that is a mapping from course keys to lists of integers,
  read as a \<^typ>\<open>schedule\<close>; \<open>None\<close> for every other value.\<close>

fun as_int :: "json \<Rightarrow> int option" where
  "as_int (JInt i) = Some i"
| "as_int _ = None"

fun as_int_list :: "json \<Rightarrow> int list option" where
  "as_int_list (JArray xs) =
     (if list_all (\<lambda>x. as_int x \<noteq> None) xs then Some (map (\<lambda>x. the (as_int x)) xs) else None)"
| "as_int_list _ = None"

fun as_schedule :: "json \<Rightarrow> schedule option" where
  "as_schedule (JObject kvs) =
     (if list_all (\<lambda>(k, v). as_int_list v \<noteq> None) kvs
      then Some (map (\<lambda>(k, v). (k, the (as_int_list v))) kvs) else None)"
| "as_schedule _ = None"

text \<open>A date of the calendar, as every \<open>datetime\<close> object is.\<close>

definition valid_datetime :: "datetime \<Rightarrow> bool" where
  "valid_datetime t = valid_date (dt_year t) (dt_month t) (dt_day t)"

text \<open>A posted value that starts with the date \<open>t\<close> written as \<open>YYYY-MM-DD\<close>, whatever
  follows the ten characters.\<close>

definition date_prefix :: "string \<Rightarrow> datetime \<Rightarrow> bool" where
  "date_prefix posted t \<longleftrightarrow>
     (\<exists>y1 y2 y3 y4 m1 m2 d1 d2 rest.
        posted = [y1, y2, y3, y4, CHR ''-'', m1, m2, CHR ''-'', d1, d2] @ rest
        \<and> list_all is_digit [y1, y2, y3, y4, m1, m2, d1, d2]
        \<and> t = \<lparr>dt_year = digits_value [y1, y2, y3, y4], dt_month = digits_value [m1, m2],
                 dt_day = digits_value [d1, d2]\<rparr>
        \<and> valid_datetime t)"

text \<open>The character before the end of \<open>w\<close>, when \<open>w\<close> follows the character \<open>p\<close>.\<close>

definition last_char :: "char option \<Rightarrow> string \<Rightarrow> char option" where
  "last_char p w = (if w = [] then p else Some (last w))"

text \<open>A text that holds the word "next", in any case, then whitespace, then "class",
  "lecture" or "session", in any case, with no word character directly before or after
  the phrase.\<close>

definition contains_next_phrase :: "string \<Rightarrow> bool" where
  "contains_next_phrase text \<longleftrightarrow>
     (\<exists>pre nxt ws word post.
        text = pre @ nxt @ ws @ word @ post
        \<and> map lower nxt = ''next''
        \<and> ws \<noteq> [] \<and> list_all is_space ws
        \<and> (map lower word = ''class'' \<or> map lower word = ''lecture''
            \<or> map lower word = ''session'')
        \<and> \<not> word_before (last_char None pre) \<and> \<not> word_after post)"

text \<open>For the proofs about matching: \<open>r\<close> can end at position \<open>b\<close> when started at
  position \<open>a\<close>, whatever groups were captured before.\<close>

definition reach :: "regex \<Rightarrow> pos \<Rightarrow> pos \<Rightarrow> bool" where
  "reach r a b \<longleftrightarrow> (\<forall>g. \<exists>g'. (b, g') \<in> set (matches r (a, g)))"


section \<open>The calendar: ordinals and dates\<close>

text \<open>The date that \<open>_ord2ymd\<close> computes has the ordinal it was given, with a month
  from 1 to 12 and a day of that month; for the ordinals 1 to \<open>MAXORDINAL\<close> its year lies
  between 1 and 9999. So adding days to a date moves its ordinal by that many days and
  gives a date of the calendar.\<close>

lemma days_before_year_cycles:
  assumes "0 \<le> b" "b \<le> 3" "0 \<le> c" "c \<le> 24" "0 \<le> e" "e \<le> 3"
  shows "days_before_year (a * 400 + 1 + b * 100 + c * 4 + e)
           = a * 146097 + b * 36524 + c * 1461 + e * 365"
proof -
  define y1 where "y1 = a * 400 + b * 100 + c * 4 + e"
  have d4: "y1 div 4 = a * 100 + b * 25 + c"
    using assms unfolding y1_def by linarith
  have d100: "y1 div 100 = a * 4 + b"
    using assms unfolding y1_def by linarith
  have d400: "y1 div 400 = a"
    using assms unfolding y1_def by linarith
  have "a * 400 + 1 + b * 100 + c * 4 + e - 1 = y1"
    by (simp add: y1_def)
  then have "days_before_year (a * 400 + 1 + b * 100 + c * 4 + e)
               = y1 * 365 + y1 div 4 - y1 div 100 + y1 div 400"
    by (simp add: days_before_year_def Let_def)
  also have "\<dots> = a * 146097 + b * 36524 + c * 1461 + e * 365"
    unfolding d4 d100 d400 by (simp add: y1_def)
  finally show ?thesis .
qed

lemma is_leap_cycles:
  assumes "0 \<le> b" "b \<le> 3" "0 \<le> c" "c \<le> 24" "0 \<le> e" "e \<le> 3"
  shows "is_leap (a * 400 + 1 + b * 100 + c * 4 + e) \<longleftrightarrow> e = 3 \<and> (c \<noteq> 24 \<or> b = 3)"
proof -
  define y where "y = a * 400 + 1 + b * 100 + c * 4 + e"
  have "y = (e + 1) + 4 * (a * 100 + b * 25 + c)" by (simp add: y_def)
  then have m4: "y mod 4 = (e + 1) mod 4" by (simp only: mod_mult_self2)
  have "y = (c * 4 + e + 1) + 100 * (a * 4 + b)" by (simp add: y_def)
  then have m100: "y mod 100 = (c * 4 + e + 1) mod 100" by (simp only: mod_mult_self2)
  have "y = (b * 100 + c * 4 + e + 1) + 400 * a" by (simp add: y_def)
  then have m400: "y mod 400 = (b * 100 + c * 4 + e + 1) mod 400" by (simp only: mod_mult_self2)
  have e4: "(e + 1) mod 4 = 0 \<longleftrightarrow> e = 3"
  proof (cases "e = 3")
    case True then show ?thesis by simp
  next
    case False
    with assms have "0 \<le> e + 1" "e + 1 < 4" by linarith+
    then have "(e + 1) mod 4 = e + 1" by (rule mod_pos_pos_trivial)
    with False assms show ?thesis by simp
  qed
  have c100: "(c * 4 + e + 1) mod 100 = 0 \<longleftrightarrow> c = 24" if "e = 3"
  proof (cases "c = 24")
    case True with that show ?thesis by simp
  next
    case False
    with assms that have "0 \<le> c * 4 + e + 1" "c * 4 + e + 1 < 100" by linarith+
    then have "(c * 4 + e + 1) mod 100 = c * 4 + e + 1" by (rule mod_pos_pos_trivial)
    with False assms that show ?thesis by simp
  qed
  have b400: "(b * 100 + c * 4 + e + 1) mod 400 = 0 \<longleftrightarrow> b = 3" if "e = 3" "c = 24"
  proof (cases "b = 3")
    case True with that show ?thesis by simp
  next
    case False
    with assms that have "0 \<le> b * 100 + c * 4 + e + 1" "b * 100 + c * 4 + e + 1 < 400"
      by linarith+
    then have "(b * 100 + c * 4 + e + 1) mod 400 = b * 100 + c * 4 + e + 1"
      by (rule mod_pos_pos_trivial)
    with False assms that show ?thesis by simp
  qed
  have L4: "y mod 4 = 0 \<longleftrightarrow> e = 3" using m4 e4 by simp
  have L100: "y mod 100 = 0 \<longleftrightarrow> c = 24" if "e = 3" using m100 c100[OF that] by simp
  have L400: "y mod 400 = 0 \<longleftrightarrow> b = 3" if "e = 3" "c = 24"
    using m400 b400[OF that] by simp
  have "is_leap y \<longleftrightarrow> e = 3 \<and> (c \<noteq> 24 \<or> b = 3)"
    unfolding is_leap_def using L4 L100 L400 by (cases "e = 3"; cases "c = 24"; simp)
  then show ?thesis by (simp only: y_def)
qed

lemma preceding_adjust:
  assumes "2 \<le> m" "m \<le> 12"
  shows "DAYS_BEFORE_MONTH m + (if m > 2 \<and> L then 1 else 0)
           - (DAYS_IN_MONTH (m - 1) + (if m - 1 = 2 \<and> L then 1 else 0))
         = DAYS_BEFORE_MONTH (m - 1) + (if m - 1 > 2 \<and> L then 1 else 0)"
proof -
  from assms have "m = 2 \<or> m = 3 \<or> m = 4 \<or> m = 5 \<or> m = 6 \<or> m = 7 \<or> m = 8 \<or> m = 9
      \<or> m = 10 \<or> m = 11 \<or> m = 12"
    by arith
  then show ?thesis
    by (elim disjE) (simp_all add: DAYS_BEFORE_MONTH_def DAYS_IN_MONTH_def)
qed

lemma month_estimate:
  fixes r :: int
  assumes "0 \<le> r" and "r < 365" and "m = (r + 50) div 32"
  shows "1 \<le> m \<and> m \<le> 12"
    and "DAYS_BEFORE_MONTH m + (if m > 2 \<and> L then 1 else 0) \<le> r \<Longrightarrow>
         r < DAYS_BEFORE_MONTH m + (if m > 2 \<and> L then 1 else 0)
               + (DAYS_IN_MONTH m + (if m = 2 \<and> L then 1 else 0))"
    and "2 \<le> m \<Longrightarrow> DAYS_BEFORE_MONTH (m - 1) + (if m - 1 > 2 \<and> L then 1 else 0) \<le> r"
proof -
  have lo: "32 * m \<le> r + 50" and hi: "r + 50 < 32 * m + 32"
    using assms(3) by linarith+
  show mb: "1 \<le> m \<and> m \<le> 12" using assms(1,2) lo hi by linarith
  then have cases: "m = 1 \<or> m = 2 \<or> m = 3 \<or> m = 4 \<or> m = 5 \<or> m = 6 \<or> m = 7 \<or> m = 8
      \<or> m = 9 \<or> m = 10 \<or> m = 11 \<or> m = 12"
    by arith
  show "r < DAYS_BEFORE_MONTH m + (if m > 2 \<and> L then 1 else 0)
               + (DAYS_IN_MONTH m + (if m = 2 \<and> L then 1 else 0))"
    if "DAYS_BEFORE_MONTH m + (if m > 2 \<and> L then 1 else 0) \<le> r"
    using cases hi assms(2)
    by (elim disjE) (simp_all add: DAYS_BEFORE_MONTH_def DAYS_IN_MONTH_def)
  show "DAYS_BEFORE_MONTH (m - 1) + (if m - 1 > 2 \<and> L then 1 else 0) \<le> r" if "2 \<le> m"
    using cases lo that
    by (elim disjE) (simp_all add: DAYS_BEFORE_MONTH_def)
qed


lemma ord2ymd_correct:
  "case ord2ymd n0 of (y, m, d) \<Rightarrow>
     ymd2ord y m d = n0 \<and> 1 \<le> m \<and> m \<le> 12 \<and> 1 \<le> d \<and> d \<le> days_in_month y m"
proof -
  define n where "n = n0 - 1"
  define a where "a = n div 146097"
  define r1 where "r1 = n mod 146097"
  define b where "b = r1 div 36524"
  define r2 where "r2 = r1 mod 36524"
  define c where "c = r2 div 1461"
  define r3 where "r3 = r2 mod 1461"
  define e where "e = r3 div 365"
  define r4 where "r4 = r3 mod 365"
  define y where "y = a * 400 + 1 + b * 100 + c * 4 + e"
  define L where "L \<longleftrightarrow> e = 3 \<and> (c \<noteq> 24 \<or> b = 3)"
  define m where "m = (r4 + 50) div 32"
  define preceding where "preceding = DAYS_BEFORE_MONTH m + (if m > 2 \<and> L then 1 else 0)"
  have unf: "ord2ymd n0 =
      (if e = 4 \<or> b = 4 then (y - 1, 12, 31)
       else if preceding > r4
         then (y, m - 1, r4 - (preceding - (DAYS_IN_MONTH (m - 1)
                                       + (if m - 1 = 2 \<and> L then 1 else 0))) + 1)
         else (y, m, r4 - preceding + 1))"
    unfolding ord2ymd_def Let_def preceding_def m_def L_def y_def r4_def e_def r3_def c_def
      r2_def b_def r1_def a_def n_def ..
  have r1: "0 \<le> r1" "r1 < 146097" by (simp_all add: r1_def)
  have r2: "0 \<le> r2" "r2 < 36524" by (simp_all add: r2_def)
  have r3: "0 \<le> r3" "r3 < 1461" by (simp_all add: r3_def)
  have r4: "0 \<le> r4" "r4 < 365" by (simp_all add: r4_def)
  have n: "n = a * 146097 + r1" by (simp add: a_def r1_def)
  have r1e: "r1 = b * 36524 + r2" by (simp add: b_def r2_def)
  have r2e: "r2 = c * 1461 + r3" by (simp add: c_def r3_def)
  have r3e: "r3 = e * 365 + r4" by (simp add: e_def r4_def)
  have b: "0 \<le> b" "b \<le> 4" using r1 unfolding b_def by linarith+
  have c: "0 \<le> c" "c \<le> 24" using r2 unfolding c_def by linarith+
  have e: "0 \<le> e" "e \<le> 4" using r3 unfolding e_def by linarith+
  show ?thesis
  proof (cases "b = 4")
    case True
    with r1 r1e r2 have "r2 = 0" by linarith
    then have z: "c = 0" "r3 = 0" "e = 0" "r4 = 0"
      by (simp_all add: c_def r3_def e_def r4_def)
    have "days_before_year (a * 400 + 1 + 3 * 100 + 24 * 4 + 3)
            = a * 146097 + 3 * 36524 + 24 * 1461 + 3 * 365"
      by (rule days_before_year_cycles) simp_all
    then have dby: "days_before_year (a * 400 + 400) = a * 146097 + 145731"
      by (simp add: add.commute)
    have "is_leap (a * 400 + 1 + 3 * 100 + 24 * 4 + 3)"
      by (subst is_leap_cycles) simp_all
    then have lp: "is_leap (a * 400 + 400)" by (simp add: add.commute)
    have y1: "y - 1 = a * 400 + 400" using True z by (simp add: y_def)
    have o: "ord2ymd n0 = (y - 1, 12, 31)" using True by (simp add: unf)
    have "n0 = a * 146097 + 146097"
      using n r1e \<open>r2 = 0\<close> True by (simp add: n_def)
    then show ?thesis
      unfolding o y1 using dby lp
      by (simp add: ymd2ord_def days_before_month_def DAYS_BEFORE_MONTH_def
          days_in_month_def DAYS_IN_MONTH_def)
  next
    case b4: False
    with b have b3: "b \<le> 3" by simp
    show ?thesis
    proof (cases "e = 4")
      case True
      with r3 r3e r4 have "r4 = 0" by linarith
      with r2 r2e r3e True have c23: "c \<le> 23" by linarith
      have "days_before_year (a * 400 + 1 + b * 100 + c * 4 + 3)
              = a * 146097 + b * 36524 + c * 1461 + 3 * 365"
        using b b3 c c23 by (intro days_before_year_cycles) simp_all
      then have dby: "days_before_year (y - 1) = a * 146097 + b * 36524 + c * 1461 + 1095"
        using True by (simp add: y_def)
      have "is_leap (a * 400 + 1 + b * 100 + c * 4 + 3)"
        using b b3 c c23 by (subst is_leap_cycles) simp_all
      then have lp: "is_leap (y - 1)" using True by (simp add: y_def)
      have o: "ord2ymd n0 = (y - 1, 12, 31)" using True by (simp add: unf)
      have "n0 = a * 146097 + b * 36524 + c * 1461 + 1461"
        using n r1e r2e r3e \<open>r4 = 0\<close> True by (simp add: n_def)
      then show ?thesis
        unfolding o using dby lp
        by (simp add: ymd2ord_def days_before_month_def DAYS_BEFORE_MONTH_def
            days_in_month_def DAYS_IN_MONTH_def)
    next
      case e4: False
      with e have e3: "e \<le> 3" by simp
      have dby: "days_before_year y = a * 146097 + b * 36524 + c * 1461 + e * 365"
        unfolding y_def using b b3 c e e3 by (intro days_before_year_cycles) simp_all
      have lp: "is_leap y \<longleftrightarrow> L"
        unfolding y_def L_def using b b3 c e e3 by (intro is_leap_cycles) simp_all
      have n0: "n0 = a * 146097 + b * 36524 + c * 1461 + e * 365 + r4 + 1"
        using n r1e r2e r3e by (simp add: n_def)
      have m: "1 \<le> m" "m \<le> 12" using r4 unfolding m_def by linarith+
      have dim: "days_in_month y k = DAYS_IN_MONTH k + (if k = 2 \<and> L then 1 else 0)" for k
        by (simp add: days_in_month_def DAYS_IN_MONTH_def lp)
      note est2 = month_estimate(2)[OF r4 m_def, where L = L]
      note est3 = month_estimate(3)[OF r4 m_def, where L = L]
      show ?thesis
      proof (cases "preceding > r4")
        case True
        have "m \<noteq> 1"
        proof
          assume "m = 1"
          then have "preceding = 0" by (simp add: preceding_def DAYS_BEFORE_MONTH_def)
          with True r4 show False by simp
        qed
        with m have "2 \<le> m" by simp
        from preceding_adjust[OF this m(2), of L]
        have p: "preceding - (DAYS_IN_MONTH (m - 1) + (if m - 1 = 2 \<and> L then 1 else 0))
                = days_before_month y (m - 1)"
          by (simp add: preceding_def days_before_month_def lp)
        have o: "ord2ymd n0 = (y, m - 1, r4 - (preceding - (DAYS_IN_MONTH (m - 1)
                                       + (if m - 1 = 2 \<and> L then 1 else 0))) + 1)"
          using True b4 e4 by (simp add: unf)
        have lo: "days_before_month y (m - 1) \<le> r4"
          using est3[OF \<open>2 \<le> m\<close>] by (simp add: days_before_month_def lp)
        have hi: "r4 < days_before_month y (m - 1) + days_in_month y (m - 1)"
          using True p by (simp add: dim)
        show ?thesis
          unfolding o p using dby n0 m \<open>2 \<le> m\<close> lo hi by (simp add: ymd2ord_def)
      next
        case False
        have p: "preceding = days_before_month y m"
          by (simp add: preceding_def days_before_month_def lp)
        have o: "ord2ymd n0 = (y, m, r4 - preceding + 1)"
          using False b4 e4 by (simp add: unf)
        have lo: "days_before_month y m \<le> r4" using False p by simp
        then have hi: "r4 < days_before_month y m + days_in_month y m"
          using est2 by (simp add: p[symmetric] preceding_def dim)
        show ?thesis
          unfolding o p using dby n0 m lo hi by (simp add: ymd2ord_def)
      qed
    qed
  qed
qed


lemma ord2ymd_ymd2ord: "(case ord2ymd n0 of (y, m, d) \<Rightarrow> ymd2ord y m d) = n0"
  using ord2ymd_correct[of n0] by (cases "ord2ymd n0") simp


lemma days_before_year_low: "y \<le> 0 \<Longrightarrow> days_before_year y \<le> - 366"
proof -
  assume "y \<le> 0"
  then have z: "y - 1 \<le> - 1" by simp
  have "(y - 1) div 4 \<le> - 1" using z by linarith
  moreover have "(y - 1) div 400 \<le> - 1" using z by linarith
  moreover have "y - 1 \<le> (y - 1) div 100" using z by linarith
  ultimately show ?thesis using z by (simp add: days_before_year_def Let_def)
qed

lemma days_before_year_high: "10000 \<le> y \<Longrightarrow> 3652059 \<le> days_before_year y"
proof -
  assume "10000 \<le> y"
  then have z: "9999 \<le> y - 1" by simp
  have "(y - 1) div 100 \<le> (y - 1) div 4 - 2400" using z by linarith
  moreover have "24 \<le> (y - 1) div 400" using z by linarith
  ultimately show ?thesis using z by (simp add: days_before_year_def Let_def)
qed

lemma days_before_month_bounds:
  "1 \<le> m \<Longrightarrow> m \<le> 12 \<Longrightarrow> 0 \<le> days_before_month y m \<and> days_before_month y m \<le> 335"
  by (simp add: days_before_month_def DAYS_BEFORE_MONTH_def)

lemma days_in_month_le: "days_in_month y m \<le> 31"
  by (simp add: days_in_month_def DAYS_IN_MONTH_def)

lemma fromordinal_valid:
  assumes "1 \<le> n" and "n \<le> MAXORDINAL"
  shows "valid_datetime (fromordinal n)"
proof -
  obtain y m d where o: "ord2ymd n = (y, m, d)" by (cases "ord2ymd n") auto
  with ord2ymd_correct[of n] have
    e: "ymd2ord y m d = n" and m: "1 \<le> m" "m \<le> 12" and d: "1 \<le> d" "d \<le> days_in_month y m"
    by simp_all
  from days_before_month_bounds[OF m, of y]
  have bm: "0 \<le> days_before_month y m" "days_before_month y m \<le> 335" by simp_all
  from d days_in_month_le[of y m] have d31: "d \<le> 31" by linarith
  have n: "n = days_before_year y + days_before_month y m + d"
    using e by (simp add: ymd2ord_def)
  have "1 \<le> y"
  proof (rule ccontr)
    assume "\<not> 1 \<le> y"
    then have "days_before_year y \<le> - 366" by (intro days_before_year_low) simp
    with n bm d31 assms(1) show False by linarith
  qed
  moreover have "y \<le> 9999"
  proof (rule ccontr)
    assume "\<not> y \<le> 9999"
    then have "3652059 \<le> days_before_year y" by (intro days_before_year_high) simp
    with n bm d assms(2) show False by (simp add: MAXORDINAL_def)
  qed
  ultimately show ?thesis
    using m d by (simp add: valid_datetime_def valid_date_def fromordinal_def o)
qed

section \<open>The course key and the next class day\<close>

lemma starts_with_prefix: "starts_with k c \<longleftrightarrow> prefix k c"
  by (induction k c rule: starts_with.induct) simp_all

lemma str_in_sublist: "str_in k c \<longleftrightarrow> sublist k c"
  by (induction c) (simp_all add: starts_with_prefix sublist_Cons_right)

lemma base_code_loop_None:
  "base_code_loop sched code = None \<longleftrightarrow> list_all (\<lambda>(k, ds). \<not> str_in k code) sched"
  by (induction sched code rule: base_code_loop.induct) simp_all

lemma base_code_loop_first:
  assumes "list_all (\<lambda>(k, ds). \<not> str_in k code) pre" and "str_in k code"
  shows "base_code_loop (pre @ (k, ds) # post) code = Some k"
  using assms by (induction pre) auto

lemma map_of_first:
  assumes "list_all (\<lambda>(k', ds). k' \<noteq> k) pre"
  shows "map_of (pre @ (k, ds) # post) k = Some ds"
  using assms by (induction pre) auto

lemma base_code_loop_Some:
  "base_code_loop sched code = Some k \<Longrightarrow>
     str_in k code \<and> (\<exists>ds. map_of sched k = Some ds \<and> (k, ds) \<in> set sched)"
proof (induction sched code rule: base_code_loop.induct)
  case (1 course_code)
  then show ?case by simp
next
  case (2 key days rest course_code)
  then show ?case by (auto split: if_splits)
qed

lemma days_ahead_loop_filter:
  "days_ahead_loop xs i = (case filter (\<lambda>d. i < d) xs of [] \<Rightarrow> 0 | d # _ \<Rightarrow> d - i)"
  by (induction xs) simp_all

lemma Min_sorted_Cons: "sorted (x # xs) \<Longrightarrow> Min (set (x # xs)) = x"
  by (auto intro!: Min_eqI)

lemma filter_sort_empty: "filter P (sort xs) = [] \<longleftrightarrow> filter P xs = []"
  by (simp add: filter_empty_conv)

lemma days_ahead_sorted:
  "days_ahead_loop (sort ds) i =
     (if filter (\<lambda>d. i < d) ds \<noteq> [] then Min (set (filter (\<lambda>d. i < d) ds)) - i else 0)"
proof (cases "filter (\<lambda>d. i < d) (sort ds)")
  case Nil
  then show ?thesis
    by (simp add: days_ahead_loop_filter filter_empty_conv)
next
  case (Cons d rest)
  have "sorted (filter (\<lambda>d. i < d) (sort ds))" by (simp add: sorted_wrt_filter)
  with Cons have "Min (set (filter (\<lambda>d. i < d) (sort ds))) = d"
    by (simp only: Min_sorted_Cons)
  moreover have "set (filter (\<lambda>d. i < d) (sort ds)) = set (filter (\<lambda>d. i < d) ds)" by simp
  moreover have "filter (\<lambda>d. i < d) ds \<noteq> []"
    using Cons filter_sort_empty[of "\<lambda>d. i < d" ds] by simp
  ultimately show ?thesis
    using Cons by (simp add: days_ahead_loop_filter)
qed


lemma toordinal_fromordinal: "toordinal (fromordinal n) = n"
  using ord2ymd_ymd2ord[of n] by (cases "ord2ymd n") (simp add: toordinal_def fromordinal_def)

lemma hd_sort_Min: "ds \<noteq> [] \<Longrightarrow> \<exists>rest. sort ds = Min (set ds) # rest"
proof -
  assume "ds \<noteq> []"
  then have "sort ds \<noteq> []" by (metis length_0_conv length_sort)
  then obtain x rest where xr: "sort ds = x # rest" by (cases "sort ds") auto
  have "sorted (sort ds)" by simp
  with xr have "Min (set (sort ds)) = x" by (simp only: Min_sorted_Cons)
  moreover have "set (sort ds) = set ds" by simp
  ultimately have "Min (set ds) = x" by (simp only:)
  with xr show ?thesis by simp
qed

lemma get_next_class_date_matched:
  assumes "base_code_loop sched code = Some k" and "k \<noteq> []"
    and "map_of sched k = Some ds" and "ds \<noteq> []"
  shows "get_next_class_date sched code ref
           = map_sum id Some (add_days ref (next_class_offset ds (weekday ref)))"
proof -
  define i where "i = weekday ref"
  define later where "later = filter (\<lambda>d. i < d) ds"
  from assms(1) have ne: "sched \<noteq> []" by auto
  obtain rest where srt: "sort ds = Min (set ds) # rest"
    using hd_sort_Min[OF assms(4)] by blast
  have da: "days_ahead_loop (sort ds) i = (if later \<noteq> [] then Min (set later) - i else 0)"
    unfolding later_def by (rule days_ahead_sorted)
  have unf: "get_next_class_date sched code ref =
      (if days_ahead_loop (sort ds) i = 0
       then (case sort ds of
               [] \<Rightarrow> Inl IndexError
             | first # _ \<Rightarrow> map_sum id Some (add_days ref ((7 - i) + first)))
       else map_sum id Some (add_days ref (days_ahead_loop (sort ds) i)))"
    unfolding i_def using assms ne by (simp add: get_next_class_date_def Let_def)
  have off: "next_class_offset ds i = (if later \<noteq> [] then Min (set later) - i
                                      else (7 - i) + Min (set ds))"
    by (simp add: next_class_offset_def later_def)
  show ?thesis
  proof (cases "later = []")
    case True
    then have "days_ahead_loop (sort ds) i = 0" by (simp add: da)
    then show ?thesis
      unfolding unf i_def[symmetric] off using True by (simp add: srt)
  next
    case False
    then have "Min (set later) \<in> set later" by (intro Min_in) simp_all
    then have "i < Min (set later)" by (simp add: later_def)
    moreover have "days_ahead_loop (sort ds) i = Min (set later) - i"
      using False by (simp add: da)
    ultimately have "days_ahead_loop (sort ds) i \<noteq> 0" by linarith
    then show ?thesis
      unfolding unf i_def[symmetric] off using False by (simp add: da)
  qed
qed

lemma weekday_range: "0 \<le> weekday t \<and> weekday t \<le> 6"
  by (simp add: weekday_def) 

lemma next_class_offset_cases:
  assumes "ds \<noteq> []"
  shows "(\<exists>d \<in> set ds. i < d \<and> next_class_offset ds i = d - i)
       \<or> ((\<forall>d \<in> set ds. d \<le> i) \<and> (\<exists>d \<in> set ds. next_class_offset ds i = 7 - i + d))"
proof (cases "filter (\<lambda>d. i < d) ds = []")
  case True
  then have "\<forall>d \<in> set ds. d \<le> i" by (auto simp: filter_empty_conv)
  moreover have "Min (set ds) \<in> set ds" using assms by (intro Min_in) simp_all
  ultimately show ?thesis using True by (auto simp: next_class_offset_def)
next
  case False
  then have "set (filter (\<lambda>d. i < d) ds) \<noteq> {}" by (auto simp: filter_empty_conv)
  then have "Min (set (filter (\<lambda>d. i < d) ds)) \<in> set (filter (\<lambda>d. i < d) ds)"
    by (intro Min_in) auto
  then have "Min (set (filter (\<lambda>d. i < d) ds)) \<in> set ds"
    and "i < Min (set (filter (\<lambda>d. i < d) ds))" by simp_all
  moreover have "next_class_offset ds i = Min (set (filter (\<lambda>d. i < d) ds)) - i"
    using False by (simp add: next_class_offset_def)
  ultimately show ?thesis by blast
qed

lemma next_class_offset_bounds:
  assumes "ds \<noteq> []" and "\<forall>d \<in> set ds. 0 \<le> d \<and> d \<le> 6" and "0 \<le> i" and "i \<le> 6"
  shows "1 \<le> next_class_offset ds i \<and> next_class_offset ds i \<le> 7"
proof -
  from next_class_offset_cases[OF assms(1), of i]
  consider d where "d \<in> set ds" "i < d" "next_class_offset ds i = d - i"
    | d where "d \<in> set ds" "d \<le> i" "next_class_offset ds i = 7 - i + d"
    by blast
  then show ?thesis
  proof cases
    case 1
    with assms(2) have "d \<le> 6" by blast
    with 1 assms(3) show ?thesis by simp
  next
    case 2
    with assms(2) have "0 \<le> d" by blast
    with 2 assms(4) show ?thesis by simp
  qed
qed




section \<open>What the patterns find\<close>

text \<open>A text that holds the "next class" phrase of the specification is a text in which
  the pattern of the program is found.\<close>

lemma reach_Eps: "reach Eps a a"
  by (simp add: reach_def)

lemma reach_Seq: "reach r a b \<Longrightarrow> reach s b c \<Longrightarrow> reach (Seq r s) a c"
  by (fastforce simp: reach_def)

lemma reach_Alt1: "reach r a b \<Longrightarrow> reach (Alt r s) a b"
  by (fastforce simp: reach_def)

lemma reach_Alt2: "reach s a b \<Longrightarrow> reach (Alt r s) a b"
  by (fastforce simp: reach_def)

lemma reach_Group: "reach r a b \<Longrightarrow> reach (Group n r) a b"
proof -
  assume r: "reach r a b"
  obtain p t where a: "a = (p, t)" by (cases a)
  obtain p' t' where b: "b = (p', t')" by (cases b)
  show ?thesis
    unfolding reach_def
  proof
    fix g
    from r obtain g' where "(b, g') \<in> set (matches r (a, g))" unfolding reach_def by blast
    then have "((p', t'), (n, take (length t - length t') t) # g')
                 \<in> set (matches (Group n r) ((p, t), g))"
      unfolding a b by (force simp: image_iff)
    then show "\<exists>g'. (b, g') \<in> set (matches (Group n r) (a, g))" unfolding a b by blast
  qed
qed

lemma reach_Lit: "lower c = lower x \<Longrightarrow> reach (Lit x) (p, c # t) (Some c, t)"
  by (simp add: reach_def)

lemma reach_Cls: "class_has k c \<Longrightarrow> reach (Cls k) (p, c # t) (Some c, t)"
  by (simp add: reach_def)

lemma star_class_all:
  "list_all (class_has k) ws \<Longrightarrow> (last_char p ws, t) \<in> set (star_class k p (ws @ t))"
proof (induction ws arbitrary: p)
  case Nil
  then show ?case by (cases t) (simp_all add: last_char_def)
next
  case (Cons w ws)
  then have "(last_char (Some w) ws, t) \<in> set (star_class k (Some w) (ws @ t))" by simp
  moreover have "last_char (Some w) ws = last_char p (w # ws)" by (simp add: last_char_def)
  ultimately show ?case using Cons.prems by simp
qed

lemma reach_Star:
  "list_all (class_has k) ws \<Longrightarrow> reach (Star k) (p, ws @ t) (last_char p ws, t)"
  using star_class_all[of k ws p t] by (force simp: reach_def image_iff)

lemma reach_Plus:
  assumes "ws \<noteq> []" and "list_all (class_has k) ws"
  shows "reach (Plus k) (p, ws @ t) (last_char p ws, t)"
proof -
  from assms(1) obtain w ws' where ws: "ws = w # ws'" by (cases ws) auto
  with assms(2) have "class_has k w" "list_all (class_has k) ws'" by simp_all
  then have "reach (Cls k) (p, w # ws' @ t) (Some w, ws' @ t)"
    and "reach (Star k) (Some w, ws' @ t) (last_char (Some w) ws', t)"
    by (simp_all add: reach_Cls reach_Star)
  then have "reach (Plus k) (p, w # ws' @ t) (last_char (Some w) ws', t)"
    unfolding Plus_def by (rule reach_Seq)
  moreover have "last_char (Some w) ws' = last_char p ws" by (simp add: last_char_def ws)
  ultimately show ?thesis by (simp add: ws)
qed

lemma reach_lits:
  "map lower w = map lower lit \<Longrightarrow> reach (lits lit) (p, w @ t) (last_char p w, t)"
proof (induction lit arbitrary: w p)
  case Nil
  then show ?case by (simp add: lits_def last_char_def reach_Eps)
next
  case (Cons x lit)
  then obtain c w' where w: "w = c # w'" "lower c = lower x" "map lower w' = map lower lit"
    by (cases w) auto
  have "reach (Lit x) (p, c # w' @ t) (Some c, w' @ t)" using w(2) by (rule reach_Lit)
  moreover have "reach (lits lit) (Some c, w' @ t) (last_char (Some c) w', t)"
    using w(3) by (rule Cons.IH)
  ultimately have "reach (Seq (Lit x) (lits lit)) (p, c # w' @ t) (last_char (Some c) w', t)"
    by (rule reach_Seq)
  moreover have "last_char (Some c) w' = last_char p w" by (simp add: last_char_def w(1))
  ultimately show ?case by (simp add: w(1) lits_def)
qed

lemma search_from_skips:
  "matches re ((last_char p pre, t), []) \<noteq> [] \<Longrightarrow> search_from re p (pre @ t) \<noteq> None"
proof (induction pre arbitrary: p)
  case Nil
  then show ?case by (cases t) (auto simp: last_char_def split: list.splits)
next
  case (Cons c pre)
  have "last_char (Some c) pre = last_char p (c # pre)" by (simp add: last_char_def)
  with Cons have "search_from re (Some c) (pre @ t) \<noteq> None" by simp
  then show ?case by (auto split: list.splits)
qed


lemma ord_high_bit: "128 \<le> ord c \<longleftrightarrow> digit7 c"
  by (cases c) (simp add: ord_def)

lemma lower_ascii_letter:
  assumes "lower c = a" and "97 \<le> ord a" and "ord a \<le> 122"
  shows "is_ascii_letter c"
proof (cases "(65 \<le> ord c \<and> ord c \<le> 90) \<or> (192 \<le> ord c \<and> ord c \<le> 222 \<and> ord c \<noteq> 215)")
  case False
  with assms have "c = a" by (simp add: lower_def)
  with assms show ?thesis by (simp add: is_ascii_letter_def)
next
  case True
  show ?thesis
  proof (cases "65 \<le> ord c \<and> ord c \<le> 90")
    case True
    then show ?thesis by (simp add: is_ascii_letter_def)
  next
    case False
    with True have h: "192 \<le> ord c" by simp
    then have "digit7 c" by (simp add: ord_high_bit[symmetric])
    with True assms(1) have "digit7 a" by (auto simp: lower_def)
    then have "128 \<le> ord a" by (simp add: ord_high_bit)
    with assms(3) show ?thesis by simp
  qed
qed

lemma lower_word_char:
  "lower c = a \<Longrightarrow> 97 \<le> ord a \<Longrightarrow> ord a \<le> 122 \<Longrightarrow> is_word c"
  using lower_ascii_letter[of c a] by (simp add: is_word_def)

lemma reach_WordB: "word_before p \<noteq> word_after t \<Longrightarrow> reach WordB (p, t) (p, t)"
  by (simp add: reach_def)

lemma reach_matches: "reach r a b \<Longrightarrow> matches r (a, []) \<noteq> []"
proof -
  assume "reach r a b"
  then obtain g' where "(b, g') \<in> set (matches r (a, []))" unfolding reach_def by blast
  then show ?thesis by auto
qed

lemma lower_letters:
  "lower CHR ''n'' = CHR ''n''" "lower CHR ''e'' = CHR ''e''" "lower CHR ''x'' = CHR ''x''"
  "lower CHR ''t'' = CHR ''t''" "lower CHR ''c'' = CHR ''c''" "lower CHR ''l'' = CHR ''l''"
  "lower CHR ''a'' = CHR ''a''" "lower CHR ''s'' = CHR ''s''" "lower CHR ''u'' = CHR ''u''"
  "lower CHR ''r'' = CHR ''r''" "lower CHR ''i'' = CHR ''i''" "lower CHR ''o'' = CHR ''o''"
  by code_simp+

lemma last_char_nonempty: "w \<noteq> [] \<Longrightarrow> last_char p w = Some (last w)"
  by (simp add: last_char_def)

lemma phrase_core:
  assumes "map lower nxt = ''next''" and "ws \<noteq> []" and "list_all is_space ws"
    and "map lower word = map lower lit" and "word \<noteq> []"
  shows "reach (seqs [lits ''next'', Plus Space, lits lit]) (p, nxt @ ws @ word @ post)
           (Some (last word), post)"
proof -
  from assms(1) have nne: "nxt \<noteq> []" by auto
  have "reach (lits ''next'') (p, nxt @ ws @ word @ post) (last_char p nxt, ws @ word @ post)"
    by (rule reach_lits) (simp add: assms(1) lower_letters)
  then have 1: "reach (lits ''next'') (p, nxt @ ws @ word @ post)
                  (Some (last nxt), ws @ word @ post)"
    by (simp add: last_char_nonempty[OF nne])
  have "reach (Plus Space) (Some (last nxt), ws @ word @ post)
          (last_char (Some (last nxt)) ws, word @ post)"
    using assms(2,3) by (intro reach_Plus) (simp_all add: list_all_iff)
  then have 2: "reach (Plus Space) (Some (last nxt), ws @ word @ post)
                  (Some (last ws), word @ post)"
    by (simp add: last_char_nonempty[OF assms(2)])
  have "reach (lits lit) (Some (last ws), word @ post) (last_char (Some (last ws)) word, post)"
    using assms(4) by (rule reach_lits)
  then have 3: "reach (lits lit) (Some (last ws), word @ post) (Some (last word), post)"
    by (simp add: last_char_nonempty[OF assms(5)])
  have "reach (Seq (lits lit) Eps) (Some (last ws), word @ post) (Some (last word), post)"
    using 3 reach_Eps by (rule reach_Seq)
  with 2 have "reach (Seq (Plus Space) (Seq (lits lit) Eps)) (Some (last nxt), ws @ word @ post)
                 (Some (last word), post)"
    by (rule reach_Seq)
  with 1 have "reach (Seq (lits ''next'') (Seq (Plus Space) (Seq (lits lit) Eps)))
                 (p, nxt @ ws @ word @ post) (Some (last word), post)"
    by (rule reach_Seq)
  then show ?thesis by (simp add: seqs_def)
qed

lemma next_class_body_alts:
  "next_class_body =
     Alt (Alt (seqs [lits ''next'', Plus Space, lits ''class''])
              (seqs [lits ''next'', Plus Space, lits ''lecture'']))
         (seqs [lits ''next'', Plus Space, lits ''session''])"
  by (simp add: next_class_body_def alts_def)

lemma next_class_pattern_body:
  "next_class_pattern = Seq WordB (Seq (Group 1 next_class_body) (Seq WordB Eps))"
  by (simp add: next_class_pattern_def seqs_def)

lemma phrase_body:
  assumes "map lower nxt = ''next''" and "ws \<noteq> []" and "list_all is_space ws"
    and "map lower word = ''class'' \<or> map lower word = ''lecture''
         \<or> map lower word = ''session''"
  shows "reach next_class_body (p, nxt @ ws @ word @ post) (Some (last word), post)"
proof -
  from assms(4) have wne: "word \<noteq> []" by auto
  from assms(4) show ?thesis
  proof (elim disjE)
    assume w: "map lower word = ''class''"
    have e: "map lower word = map lower ''class''" unfolding w by (simp add: lower_letters)
    from assms(1-3) e wne have "reach (seqs [lits ''next'', Plus Space, lits ''class''])
                 (p, nxt @ ws @ word @ post) (Some (last word), post)"
      by (rule phrase_core)
    then show ?thesis unfolding next_class_body_alts by (intro reach_Alt1)
  next
    assume w: "map lower word = ''lecture''"
    have e: "map lower word = map lower ''lecture''" unfolding w by (simp add: lower_letters)
    from assms(1-3) e wne have "reach (seqs [lits ''next'', Plus Space, lits ''lecture''])
                 (p, nxt @ ws @ word @ post) (Some (last word), post)"
      by (rule phrase_core)
    then show ?thesis unfolding next_class_body_alts by (intro reach_Alt1 reach_Alt2)
  next
    assume w: "map lower word = ''session''"
    have e: "map lower word = map lower ''session''" unfolding w by (simp add: lower_letters)
    from assms(1-3) e wne have "reach (seqs [lits ''next'', Plus Space, lits ''session''])
                 (p, nxt @ ws @ word @ post) (Some (last word), post)"
      by (rule phrase_core)
    then show ?thesis unfolding next_class_body_alts by (intro reach_Alt2)
  qed
qed

lemma phrase_last_word:
  assumes "map lower word = ''class'' \<or> map lower word = ''lecture''
         \<or> map lower word = ''session''"
  shows "is_word (last word)"
proof -
  from assms have wne: "word \<noteq> []" by auto
  have lw: "last (map lower word) = lower (last word)" using wne by (rule last_map)
  have "lower (last word) = CHR ''s'' \<or> lower (last word) = CHR ''e''
      \<or> lower (last word) = CHR ''n''"
    using assms
  proof (elim disjE)
    assume "map lower word = ''class''"
    with lw show ?thesis by simp
  next
    assume "map lower word = ''lecture''"
    with lw show ?thesis by simp
  next
    assume "map lower word = ''session''"
    with lw show ?thesis by simp
  qed
  then show ?thesis
  proof (elim disjE)
    assume "lower (last word) = CHR ''s''"
    then show ?thesis by (rule lower_word_char) (simp_all add: ord_def)
  next
    assume "lower (last word) = CHR ''e''"
    then show ?thesis by (rule lower_word_char) (simp_all add: ord_def)
  next
    assume "lower (last word) = CHR ''n''"
    then show ?thesis by (rule lower_word_char) (simp_all add: ord_def)
  qed
qed

lemma next_phrase_matches:
  assumes "map lower nxt = ''next''" and "ws \<noteq> []" and "list_all is_space ws"
    and "map lower word = ''class'' \<or> map lower word = ''lecture''
         \<or> map lower word = ''session''"
    and "\<not> word_before p" and "\<not> word_after post"
  shows "matches next_class_pattern ((p, nxt @ ws @ word @ post), []) \<noteq> []"
proof -
  from assms(1) obtain n1 rest where n: "nxt = n1 # rest" and n1: "lower n1 = CHR ''n''"
    by (cases nxt) auto
  from n1 have "is_word n1" by (rule lower_word_char) (simp_all add: ord_def)
  then have "word_after (nxt @ ws @ word @ post)" by (simp add: n word_after_def)
  with assms(5) have 1: "reach WordB (p, nxt @ ws @ word @ post) (p, nxt @ ws @ word @ post)"
    by (intro reach_WordB) simp
  have "reach next_class_body (p, nxt @ ws @ word @ post) (Some (last word), post)"
    using assms(1-4) by (rule phrase_body)
  then have 2: "reach (Group 1 next_class_body) (p, nxt @ ws @ word @ post)
                  (Some (last word), post)"
    by (rule reach_Group)
  have "is_word (last word)" using assms(4) by (rule phrase_last_word)
  then have "word_before (Some (last word))" by (simp add: word_before_def)
  with assms(6) have 3: "reach WordB (Some (last word), post) (Some (last word), post)"
    by (intro reach_WordB) simp
  have "reach (Seq WordB Eps) (Some (last word), post) (Some (last word), post)"
    using 3 reach_Eps by (rule reach_Seq)
  with 2 have "reach (Seq (Group 1 next_class_body) (Seq WordB Eps))
                 (p, nxt @ ws @ word @ post) (Some (last word), post)"
    by (rule reach_Seq)
  with 1 have "reach next_class_pattern (p, nxt @ ws @ word @ post) (Some (last word), post)"
    unfolding next_class_pattern_body by (rule reach_Seq)
  then show ?thesis by (rule reach_matches)
qed

lemma next_phrase_found:
  assumes "contains_next_phrase text"
  shows "re_search next_class_pattern text \<noteq> None"
proof -
  from assms have "\<exists>pre nxt ws word post.
        text = pre @ nxt @ ws @ word @ post
        \<and> map lower nxt = ''next''
        \<and> ws \<noteq> [] \<and> list_all is_space ws
        \<and> (map lower word = ''class'' \<or> map lower word = ''lecture''
            \<or> map lower word = ''session'')
        \<and> \<not> word_before (last_char None pre) \<and> \<not> word_after post"
    by (simp only: contains_next_phrase_def)
  then show ?thesis
  proof (elim exE conjE)
    fix pre nxt ws word post
    assume t: "text = pre @ nxt @ ws @ word @ post"
      and h: "map lower nxt = ''next''" "ws \<noteq> []" "list_all is_space ws"
        "map lower word = ''class'' \<or> map lower word = ''lecture''
           \<or> map lower word = ''session''"
        "\<not> word_before (last_char None pre)" "\<not> word_after post"
    from h have "matches next_class_pattern
                   ((last_char None pre, nxt @ ws @ word @ post), []) \<noteq> []"
      by (rule next_phrase_matches)
    then have "search_from next_class_pattern None (pre @ nxt @ ws @ word @ post) \<noteq> None"
      by (rule search_from_skips)
    then show ?thesis unfolding re_search_def t .
  qed
qed

section \<open>What \<open>strptime\<close> reads\<close>

text \<open>A date of the calendar written as \<open>YYYY-MM-DD\<close> is read as that date; so every posted
  value that starts with such a date has first ten characters that \<open>strptime\<close> reads.\<close>

lemma lower_digit: "is_digit c \<Longrightarrow> lower c = c"
  by (simp add: is_digit_def lower_def)

lemma digit_not_space: "is_digit c \<Longrightarrow> \<not> is_int_space c"
  by (auto simp: is_digit_def is_int_space_def)

lemma digit_not_underscore: "is_digit c \<Longrightarrow> c \<noteq> CHR ''_''"
  by (auto simp: is_digit_def ord_def)

lemma digit_not_sign: "is_digit c \<Longrightarrow> c \<noteq> CHR ''-'' \<and> c \<noteq> CHR ''+''"
  by (auto simp: is_digit_def ord_def)

lemma int_py_digits4:
  assumes "is_digit a" "is_digit b" "is_digit c" "is_digit d"
  shows "int_py (Some [a, b, c, d]) = Inr (digits_value [a, b, c, d])"
  using assms
  by (simp add: int_py_def strip_def digit_not_space digit_not_underscore digit_not_sign)

lemma int_py_digits2:
  assumes "is_digit a" "is_digit b"
  shows "int_py (Some [a, b]) = Inr (digits_value [a, b])"
  using assms
  by (simp add: int_py_def strip_def digit_not_space digit_not_underscore digit_not_sign)

lemma year_group_match:
  assumes "is_digit a" "is_digit b" "is_digit c" "is_digit d"
  shows "matches strptime_year ((p, a # b # c # d # t), g)
           = [((Some d, t), (1, [a, b, c, d]) # g)]"
  using assms by (simp add: strptime_year_def seqs_def)


lemma char_eq_ord: "c = d \<longleftrightarrow> ord c = ord d"
  by (simp add: ord_def)

lemma ord_consts:
  "ord CHR ''0'' = 48" "ord CHR ''1'' = 49" "ord CHR ''2'' = 50" "ord CHR ''3'' = 51"
  "ord CHR ''9'' = 57" "ord CHR ''-'' = 45" "ord CHR '' '' = 32"
  by (simp_all add: ord_def)

lemma digits_value2: "is_digit a \<Longrightarrow> is_digit b \<Longrightarrow>
    digits_value [a, b] = 10 * (int (ord a) - 48) + (int (ord b) - 48)"
  by (simp add: digits_value_def digit_val_def)

lemma month_match:
  assumes "is_digit a" "is_digit b"
    and "1 \<le> digits_value [a, b]" "digits_value [a, b] \<le> 12"
  shows "matches (Seq strptime_month (Seq (Lit (CHR ''-'')) R)) ((p, a # b # CHR ''-'' # t), g)
           = matches R ((Some (CHR ''-''), t), (2, [a, b]) # g)"
proof -
  have la: "lower a = a" and lb: "lower b = b" using assms(1,2) by (simp_all add: lower_digit)
  have ld: "lower (CHR ''-'') = CHR ''-''" "lower (CHR ''0'') = CHR ''0''"
    "lower (CHR ''1'') = CHR ''1''"
    by (simp_all add: lower_def ord_def)
  have r: "48 \<le> ord a" "ord a \<le> 57" "48 \<le> ord b" "ord b \<le> 57"
    using assms(1,2) by (simp_all add: is_digit_def)
  have v: "1 \<le> 10 * (int (ord a) - 48) + (int (ord b) - 48)"
      "10 * (int (ord a) - 48) + (int (ord b) - 48) \<le> 12"
    using assms by (simp_all add: digits_value2)
  have c: "(ord a = 49 \<and> ord b \<le> 50) \<or> (ord a = 48 \<and> 49 \<le> ord b)"
    using r v by arith
  from c show ?thesis
  proof
    assume "ord a = 49 \<and> ord b \<le> 50"
    then show ?thesis
      using r by (simp add: strptime_month_def alts_def seqs_def la lb ld char_eq_ord ord_consts)
  next
    assume "ord a = 48 \<and> 49 \<le> ord b"
    then show ?thesis
      using r by (simp add: strptime_month_def alts_def seqs_def la lb ld char_eq_ord ord_consts)
  qed
qed


lemma day_match:
  assumes "is_digit a" "is_digit b"
    and "1 \<le> digits_value [a, b]" "digits_value [a, b] \<le> 31"
  shows "\<exists>rest. matches (Seq strptime_day Eps) ((p, a # b # t), g)
           = ((Some b, t), (3, [a, b]) # g) # rest"
proof -
  have la: "lower a = a" and lb: "lower b = b" using assms(1,2) by (simp_all add: lower_digit)
  have ld: "lower (CHR ''3'') = CHR ''3''" "lower (CHR ''0'') = CHR ''0''"
    "lower (CHR '' '') = CHR '' ''"
    by (simp_all add: lower_def ord_def)
  have r: "48 \<le> ord a" "ord a \<le> 57" "48 \<le> ord b" "ord b \<le> 57"
    using assms(1,2) by (simp_all add: is_digit_def)
  have v: "1 \<le> 10 * (int (ord a) - 48) + (int (ord b) - 48)"
      "10 * (int (ord a) - 48) + (int (ord b) - 48) \<le> 31"
    using assms by (simp_all add: digits_value2)
  have c: "(ord a = 51 \<and> ord b \<le> 49) \<or> ord a = 49 \<or> ord a = 50
           \<or> (ord a = 48 \<and> 49 \<le> ord b)"
    using r v by arith
  from c show ?thesis
  proof (elim disjE)
    assume "ord a = 51 \<and> ord b \<le> 49"
    then show ?thesis
      using r assms(2)
      by (simp add: strptime_day_def alts_def seqs_def la lb ld char_eq_ord ord_consts)
  next
    assume "ord a = 49"
    then show ?thesis
      using r assms(2)
      by (simp add: strptime_day_def alts_def seqs_def la lb ld char_eq_ord ord_consts)
  next
    assume "ord a = 50"
    then show ?thesis
      using r assms(2)
      by (simp add: strptime_day_def alts_def seqs_def la lb ld char_eq_ord ord_consts)
  next
    assume "ord a = 48 \<and> 49 \<le> ord b"
    then show ?thesis
      using r assms(2)
      by (simp add: strptime_day_def alts_def seqs_def la lb ld char_eq_ord ord_consts)
  qed
qed

lemma strptime_pattern_parts:
  "strptime_pattern =
     Seq strptime_year
       (Seq (Lit (CHR ''-'')) (Seq strptime_month (Seq (Lit (CHR ''-'')) (Seq strptime_day Eps))))"
  by (simp add: strptime_pattern_def seqs_def)

lemma seq_single: "matches r s = [s'] \<Longrightarrow> matches (Seq r q) s = matches q s'"
  by simp

lemma lit_dash:
  "matches (Lit (CHR ''-'')) ((p, CHR ''-'' # t), g) = [((Some (CHR ''-''), t), g)]"
  by (simp add: lower_def ord_def)

lemma strptime_iso_date:
  assumes "list_all is_digit [y1, y2, y3, y4, m1, m2, d1, d2]"
    and "valid_date (digits_value [y1, y2, y3, y4]) (digits_value [m1, m2]) (digits_value [d1, d2])"
  shows "strptime ([y1, y2, y3, y4, CHR ''-'', m1, m2, CHR ''-'', d1, d2] @ rest)
           = (if rest = []
              then Inr \<lparr>dt_year = digits_value [y1, y2, y3, y4], dt_month = digits_value [m1, m2],
                        dt_day = digits_value [d1, d2]\<rparr>
              else Inl ValueError)"
proof -
  from assms(1) have dg: "is_digit y1" "is_digit y2" "is_digit y3" "is_digit y4"
    "is_digit m1" "is_digit m2" "is_digit d1" "is_digit d2" by simp_all
  from assms(2) have mr: "1 \<le> digits_value [m1, m2]" "digits_value [m1, m2] \<le> 12"
    and dl: "1 \<le> digits_value [d1, d2]"
    and du: "digits_value [d1, d2] \<le> days_in_month (digits_value [y1, y2, y3, y4]) (digits_value [m1, m2])"
    by (simp_all add: valid_date_def)
  have "days_in_month (digits_value [y1, y2, y3, y4]) (digits_value [m1, m2]) \<le> 31"
    by (simp add: days_in_month_def DAYS_IN_MONTH_def)
  with du have dr: "digits_value [d1, d2] \<le> 31" by linarith
  from day_match[OF dg(7,8) dl dr] obtain more where
    d: "matches (Seq strptime_day Eps)
          ((Some (CHR ''-''), d1 # d2 # rest), [(2, [m1, m2]), (1, [y1, y2, y3, y4])])
        = ((Some d2, rest), [(3, [d1, d2]), (2, [m1, m2]), (1, [y1, y2, y3, y4])]) # more"
    by blast
  have "matches strptime_pattern
          ((None, y1 # y2 # y3 # y4 # CHR ''-'' # m1 # m2 # CHR ''-'' # d1 # d2 # rest), [])
        = matches (Seq (Lit (CHR ''-''))
                    (Seq strptime_month (Seq (Lit (CHR ''-'')) (Seq strptime_day Eps))))
            ((Some y4, CHR ''-'' # m1 # m2 # CHR ''-'' # d1 # d2 # rest), [(1, [y1, y2, y3, y4])])"
    unfolding strptime_pattern_parts by (rule seq_single) (rule year_group_match[OF dg(1-4)])
  also have "\<dots> = matches (Seq strptime_month (Seq (Lit (CHR ''-'')) (Seq strptime_day Eps)))
            ((Some (CHR ''-''), m1 # m2 # CHR ''-'' # d1 # d2 # rest), [(1, [y1, y2, y3, y4])])"
    by (rule seq_single) (rule lit_dash)
  also have "\<dots> = matches (Seq strptime_day Eps)
          ((Some (CHR ''-''), d1 # d2 # rest), [(2, [m1, m2]), (1, [y1, y2, y3, y4])])"
    using dg(5,6) mr by (rule month_match)
  finally have m: "matches strptime_pattern
        ((None, [y1, y2, y3, y4, CHR ''-'', m1, m2, CHR ''-'', d1, d2] @ rest), [])
      = ((Some d2, rest), [(3, [d1, d2]), (2, [m1, m2]), (1, [y1, y2, y3, y4])]) # more"
    by (simp only: d append_Cons append_Nil)
  show ?thesis
    unfolding strptime_def m
    using assms(2)
    by (simp add: group_def and_then_def int_py_digits4[OF dg(1-4)] int_py_digits2[OF dg(5,6)]
        int_py_digits2[OF dg(7,8)] datetime_new_def)
qed

lemma date_prefix_strptime:
  assumes "date_prefix posted t"
  shows "strptime (take 10 posted) = Inr t"
    and "strptime posted = (if length posted = 10 then Inr t else Inl ValueError)"
proof -
  from assms have "\<exists>y1 y2 y3 y4 m1 m2 d1 d2 rest.
        posted = [y1, y2, y3, y4, CHR ''-'', m1, m2, CHR ''-'', d1, d2] @ rest
        \<and> list_all is_digit [y1, y2, y3, y4, m1, m2, d1, d2]
        \<and> t = \<lparr>dt_year = digits_value [y1, y2, y3, y4], dt_month = digits_value [m1, m2],
                 dt_day = digits_value [d1, d2]\<rparr>
        \<and> valid_datetime t"
    by (simp only: date_prefix_def)
  then obtain y1 y2 y3 y4 m1 m2 d1 d2 rest where
    p: "posted = [y1, y2, y3, y4, CHR ''-'', m1, m2, CHR ''-'', d1, d2] @ rest"
    and dg: "list_all is_digit [y1, y2, y3, y4, m1, m2, d1, d2]"
    and t: "t = \<lparr>dt_year = digits_value [y1, y2, y3, y4], dt_month = digits_value [m1, m2],
                 dt_day = digits_value [d1, d2]\<rparr>"
    and v: "valid_datetime t"
    by (elim exE conjE)
  from v have vd: "valid_date (digits_value [y1, y2, y3, y4]) (digits_value [m1, m2])
                     (digits_value [d1, d2])"
    by (simp add: valid_datetime_def t)
  have "take 10 posted = [y1, y2, y3, y4, CHR ''-'', m1, m2, CHR ''-'', d1, d2] @ []"
    by (simp add: p)
  then show "strptime (take 10 posted) = Inr t"
    using strptime_iso_date[OF dg vd, of "[]"] by (simp add: t)
  have "length posted = 10 \<longleftrightarrow> rest = []" by (simp add: p)
  then show "strptime posted = (if length posted = 10 then Inr t else Inl ValueError)"
    using strptime_iso_date[OF dg vd, of rest] by (simp add: t p)
qed

lemma date_prefix_example:
  "date_prefix ''2024-01-03T10:00:00Z'' \<lparr>dt_year = 2024, dt_month = 1, dt_day = 3\<rparr>"
proof -
  have "''2024-01-03T10:00:00Z''
          = [CHR ''2'', CHR ''0'', CHR ''2'', CHR ''4'', CHR ''-'', CHR ''0'', CHR ''1'', CHR ''-'',
             CHR ''0'', CHR ''3''] @ ''T10:00:00Z''
        \<and> list_all is_digit [CHR ''2'', CHR ''0'', CHR ''2'', CHR ''4'', CHR ''0'', CHR ''1'',
             CHR ''0'', CHR ''3'']
        \<and> \<lparr>dt_year = 2024, dt_month = 1, dt_day = 3\<rparr>
            = \<lparr>dt_year = digits_value [CHR ''2'', CHR ''0'', CHR ''2'', CHR ''4''],
               dt_month = digits_value [CHR ''0'', CHR ''1''],
               dt_day = digits_value [CHR ''0'', CHR ''3'']\<rparr>
        \<and> valid_datetime \<lparr>dt_year = 2024, dt_month = 1, dt_day = 3\<rparr>"
    by code_simp
  then show ?thesis unfolding date_prefix_def by blast
qed

section \<open>Selecting the course\<close>

lemma get_next_class_date_no_key:
  "base_code_loop sched code = None \<Longrightarrow> get_next_class_date sched code ref = Inr None"
  by (simp add: get_next_class_date_def)

lemma get_next_class_date_key:
  assumes "base_code_loop sched code = Some k" and "map_of sched k = Some ds"
  shows "get_next_class_date sched code ref = get_next_class_date [(k, ds)] code ref"
proof -
  from assms(1) have "sched \<noteq> []" by auto
  moreover from assms(1) have "str_in k code" by (simp add: base_code_loop_Some)
  ultimately show ?thesis
    using assms by (simp add: get_next_class_date_def)
qed

lemma get_next_class_date_empty_key: "get_next_class_date [([], ds)] course_code ref = Inr None"
  by (cases course_code) (simp_all add: get_next_class_date_def)

lemma not_in_pre:
  assumes "list_all (\<lambda>(k, ds). \<not> str_in k code) pre" and "str_in key code"
  shows "list_all (\<lambda>(k, ds). k \<noteq> key) pre"
  using assms by (induction pre) auto

text \<open>
  Claim C9. \<open>get_next_class_date\<close> answers from the first stored course key, in iteration
  order, that is a substring of the course identifier: when no stored key is a substring
  the answer is \<open>None\<close>; when the entries before \<open>(key, ds)\<close> have keys that are not
  substrings and \<open>key\<close> is one, the loop leaves with \<open>key\<close> and the answer is the one the
  schedule with that entry alone gives, whatever follows it. The identifier
  "CS 363-001 Fall 2024" contains the key "CS 363", which is therefore selected. (What
  the selected entry gives is the subject of claim C4; for the empty key, which is a
  substring of every identifier, it is \<open>None\<close>, see \<open>get_next_class_date_empty_key\<close>.)
\<close>

theorem course_key_first_substring:
  "(list_all (\<lambda>(k, ds). \<not> sublist k course_code) sched
      \<longrightarrow> get_next_class_date sched course_code ref = Inr None)
   \<and> (list_all (\<lambda>(k, ds). \<not> sublist k course_code) pre \<and> sublist key course_code
      \<longrightarrow> base_code_loop (pre @ (key, ds) # post) course_code = Some key
          \<and> get_next_class_date (pre @ (key, ds) # post) course_code ref
              = get_next_class_date [(key, ds)] course_code ref)
   \<and> sublist ''CS 363'' ''CS 363-001 Fall 2024''
   \<and> base_code_loop [(''CS 363'', ds')] ''CS 363-001 Fall 2024'' = Some ''CS 363''"
proof (intro conjI impI)
  assume "list_all (\<lambda>(k, ds). \<not> sublist k course_code) sched"
  then have "base_code_loop sched course_code = None"
    by (simp add: base_code_loop_None str_in_sublist)
  then show "get_next_class_date sched course_code ref = Inr None"
    by (rule get_next_class_date_no_key)
next
  assume a: "list_all (\<lambda>(k, ds). \<not> sublist k course_code) pre \<and> sublist key course_code"
  then have p: "list_all (\<lambda>(k, ds). \<not> str_in k course_code) pre" and k: "str_in key course_code"
    by (simp_all add: str_in_sublist)
  show b: "base_code_loop (pre @ (key, ds) # post) course_code = Some key"
    using p k by (rule base_code_loop_first)
  have "map_of (pre @ (key, ds) # post) key = Some ds"
    using not_in_pre[OF p k] by (rule map_of_first)
  with b show "get_next_class_date (pre @ (key, ds) # post) course_code ref
                 = get_next_class_date [(key, ds)] course_code ref"
    by (rule get_next_class_date_key)
next
  have s: "str_in ''CS 363'' ''CS 363-001 Fall 2024''" by simp
  then show "sublist ''CS 363'' ''CS 363-001 Fall 2024''" by (simp only: str_in_sublist)
  from s show "base_code_loop [(''CS 363'', ds')] ''CS 363-001 Fall 2024'' = Some ''CS 363''"
    by simp
qed

lemma wit_sched:
  "list_all (\<lambda>(k, ds). \<not> sublist k ''CS 363-001 Fall 2024'') [(''MATH 205'', [0, 2, 4])]
   \<and> sublist ''CS 363'' ''CS 363-001 Fall 2024''"
  by (simp add: str_in_sublist[symmetric])

theorem course_key_first_substring_witness:
  "get_next_class_date [(''MATH 205'', [0, 2, 4]), (''CS 363'', [1, 3]), (''CS'', [4])]
      ''CS 363-001 Fall 2024'' \<lparr>dt_year = 2024, dt_month = 1, dt_day = 3\<rparr>
     = Inr (Some \<lparr>dt_year = 2024, dt_month = 1, dt_day = 4\<rparr>)
   \<and> get_next_class_date [(''MATH 205'', [0, 2, 4])]
      ''CS 363-001 Fall 2024'' \<lparr>dt_year = 2024, dt_month = 1, dt_day = 3\<rparr> = Inr None"
proof -
  have e: "get_next_class_date [(''CS 363'', [1, 3])]
      ''CS 363-001 Fall 2024'' \<lparr>dt_year = 2024, dt_month = 1, dt_day = 3\<rparr>
     = Inr (Some \<lparr>dt_year = 2024, dt_month = 1, dt_day = 4\<rparr>)"
    by code_simp
  have n: "list_all (\<lambda>(k, ds). \<not> sublist k ''CS 363-001 Fall 2024'') [(''MATH 205'', [0, 2, 4])]"
    using wit_sched by simp
  from course_key_first_substring[of "''CS 363-001 Fall 2024''" "[(''MATH 205'', [0, 2, 4])]"
      "\<lparr>dt_year = 2024, dt_month = 1, dt_day = 3\<rparr>" "[(''MATH 205'', [0, 2, 4])]"
      "''CS 363''" "[1, 3]" "[(''CS'', [4])]" "[]"]
  show ?thesis using wit_sched e by simp
qed


section \<open>The offset of the next class\<close>

lemma days_before_year_nonneg: "1 \<le> y \<Longrightarrow> 0 \<le> days_before_year y"
proof -
  assume "1 \<le> y"
  then have "0 \<le> y - 1" by simp
  moreover have "(y - 1) div 100 \<le> (y - 1) div 4" using \<open>0 \<le> y - 1\<close> by linarith
  moreover have "0 \<le> (y - 1) div 400" using \<open>0 \<le> y - 1\<close> by linarith
  ultimately show ?thesis by (simp add: days_before_year_def Let_def)
qed

lemma toordinal_pos: "valid_datetime t \<Longrightarrow> 1 \<le> toordinal t"
proof -
  assume v: "valid_datetime t"
  then have "0 \<le> days_before_year (dt_year t)"
    by (intro days_before_year_nonneg) (simp add: valid_datetime_def valid_date_def)
  moreover have "0 \<le> days_before_month (dt_year t) (dt_month t)"
    by (simp add: days_before_month_def DAYS_BEFORE_MONTH_def)
  moreover have "1 \<le> dt_day t" using v by (simp add: valid_datetime_def valid_date_def)
  ultimately show ?thesis by (simp add: toordinal_def ymd2ord_def)
qed

lemma add_days_ok:
  "0 < toordinal t + n \<Longrightarrow> toordinal t + n \<le> MAXORDINAL \<Longrightarrow>
     add_days t n = Inr (fromordinal (toordinal t + n))"
  by (simp add: add_days_def Let_def)


text \<open>
  Claim C4, as amended. For a matched course (the loop leaves with a key that is not the
  empty string) whose stored weekday list is not empty and holds indices from 0 to 6, and
  for every date \<open>ref\<close> of the calendar, \<open>get_next_class_date\<close> is \<open>ref\<close> plus
  \<open>next_class_offset\<close> days: the distance to the smallest stored weekday strictly greater
  than the weekday of \<open>ref\<close> if there is one, otherwise \<open>(7 - refDay)\<close> plus the smallest
  stored weekday. The offset lies between 1 and 7, so a date that is returned is strictly
  after \<open>ref\<close>, by exactly the offset; the date is returned whenever it is not after
  9999-12-31, and past that day the addition raises \<open>OverflowError\<close>.
\<close>

theorem next_class_offset_algorithm:
  assumes "base_code_loop sched course_code = Some key" and "key \<noteq> []"
    and "map_of sched key = Some ds" and "ds \<noteq> []"
    and "list_all (\<lambda>d. 0 \<le> d \<and> d \<le> 6) ds"
    and "valid_datetime ref"
  shows "get_next_class_date sched course_code ref
           = map_sum id Some (add_days ref (next_class_offset ds (weekday ref)))
         \<and> 1 \<le> next_class_offset ds (weekday ref)
         \<and> next_class_offset ds (weekday ref) \<le> 7
         \<and> (if toordinal ref + next_class_offset ds (weekday ref) \<le> MAXORDINAL
            then \<exists>r. get_next_class_date sched course_code ref = Inr (Some r)
                   \<and> toordinal r = toordinal ref + next_class_offset ds (weekday ref)
                   \<and> toordinal ref < toordinal r
            else get_next_class_date sched course_code ref = Inl OverflowError)"
proof -
  define off where "off = next_class_offset ds (weekday ref)"
  have g: "get_next_class_date sched course_code ref = map_sum id Some (add_days ref off)"
    unfolding off_def using assms(1-4) by (rule get_next_class_date_matched)
  from assms(5) have r: "\<forall>d \<in> set ds. 0 \<le> d \<and> d \<le> 6" by (simp add: list_all_iff)
  have b: "1 \<le> off \<and> off \<le> 7"
    unfolding off_def using assms(4) r weekday_range[of ref]
    by (intro next_class_offset_bounds) simp_all
  have p: "1 \<le> toordinal ref" using assms(6) by (rule toordinal_pos)
  have c: "if toordinal ref + off \<le> MAXORDINAL
           then \<exists>r. get_next_class_date sched course_code ref = Inr (Some r)
                   \<and> toordinal r = toordinal ref + off \<and> toordinal ref < toordinal r
           else get_next_class_date sched course_code ref = Inl OverflowError"
  proof (cases "toordinal ref + off \<le> MAXORDINAL")
    case True
    with p b have "add_days ref off = Inr (fromordinal (toordinal ref + off))"
      by (intro add_days_ok) simp_all
    with True b show ?thesis by (simp add: g toordinal_fromordinal)
  next
    case False
    then show ?thesis by (simp add: g add_days_def Let_def)
  qed
  from g b c show ?thesis unfolding off_def by simp
qed

lemma C4_wit_hyps:
  "base_code_loop [(''CS 363'', [1, 3])] ''CS 363-001 Fall 2024'' = Some ''CS 363''"
  "map_of [(''CS 363'', [1, 3 :: int])] ''CS 363'' = Some [1, 3]"
  "list_all (\<lambda>d. 0 \<le> d \<and> d \<le> 6) [1, 3 :: int]"
  "valid_datetime \<lparr>dt_year = 2024, dt_month = 1, dt_day = 5\<rparr>"
  "valid_datetime \<lparr>dt_year = 2024, dt_month = 1, dt_day = 3\<rparr>"
  "valid_datetime \<lparr>dt_year = 2024, dt_month = 1, dt_day = 4\<rparr>"
  by (simp_all add: valid_datetime_def valid_date_def days_in_month_def DAYS_IN_MONTH_def)

lemma C4_wit_vals:
  "weekday \<lparr>dt_year = 2024, dt_month = 1, dt_day = 5\<rparr> = 4"
  "weekday \<lparr>dt_year = 2024, dt_month = 1, dt_day = 3\<rparr> = 2"
  "weekday \<lparr>dt_year = 2024, dt_month = 1, dt_day = 4\<rparr> = 3"
  "next_class_offset [1, 3] 4 = 4"
  "next_class_offset [1, 3] 2 = 1"
  "next_class_offset [1, 3] 3 = 5"
  "add_days \<lparr>dt_year = 2024, dt_month = 1, dt_day = 5\<rparr> 4 = Inr \<lparr>dt_year = 2024, dt_month = 1, dt_day = 9\<rparr>"
  "add_days \<lparr>dt_year = 2024, dt_month = 1, dt_day = 3\<rparr> 1 = Inr \<lparr>dt_year = 2024, dt_month = 1, dt_day = 4\<rparr>"
  "add_days \<lparr>dt_year = 2024, dt_month = 1, dt_day = 4\<rparr> 5 = Inr \<lparr>dt_year = 2024, dt_month = 1, dt_day = 9\<rparr>"
  by code_simp+

theorem next_class_offset_algorithm_witness:
  "get_next_class_date [(''CS 363'', [1, 3])] ''CS 363-001 Fall 2024''
       \<lparr>dt_year = 2024, dt_month = 1, dt_day = 3\<rparr>
     = Inr (Some \<lparr>dt_year = 2024, dt_month = 1, dt_day = 4\<rparr>)
   \<and> get_next_class_date [(''CS 363'', [1, 3])] ''CS 363-001 Fall 2024''
       \<lparr>dt_year = 2024, dt_month = 1, dt_day = 5\<rparr>
     = Inr (Some \<lparr>dt_year = 2024, dt_month = 1, dt_day = 9\<rparr>)
   \<and> get_next_class_date [(''CS 363'', [1, 3])] ''CS 363-001 Fall 2024''
       \<lparr>dt_year = 2024, dt_month = 1, dt_day = 4\<rparr>
     = Inr (Some \<lparr>dt_year = 2024, dt_month = 1, dt_day = 9\<rparr>)"
  using next_class_offset_algorithm[OF C4_wit_hyps(1) _ C4_wit_hyps(2) _ C4_wit_hyps(3) C4_wit_hyps(5)]
    next_class_offset_algorithm[OF C4_wit_hyps(1) _ C4_wit_hyps(2) _ C4_wit_hyps(3) C4_wit_hyps(4)]
    next_class_offset_algorithm[OF C4_wit_hyps(1) _ C4_wit_hyps(2) _ C4_wit_hyps(3) C4_wit_hyps(6)]
  by (simp add: C4_wit_vals)

text \<open>
  The claim as stated, for every reference date, fails in the last week of the calendar:
  on 9999-12-31, a Friday, the course "CS 363" with classes on Tuesday and Thursday is
  matched, and the result is no date but \<open>OverflowError\<close>.
\<close>

theorem next_class_every_date_counterexample:
  "base_code_loop [(''CS 363'', [1, 3])] ''CS 363-001 Fall 2024'' = Some ''CS 363''
   \<and> map_of [(''CS 363'', [1, 3 :: int])] ''CS 363'' = Some [1, 3]
   \<and> list_all (\<lambda>d. 0 \<le> d \<and> d \<le> 6) [1, 3 :: int]
   \<and> valid_datetime \<lparr>dt_year = 9999, dt_month = 12, dt_day = 31\<rparr>
   \<and> get_next_class_date [(''CS 363'', [1, 3])] ''CS 363-001 Fall 2024''
        \<lparr>dt_year = 9999, dt_month = 12, dt_day = 31\<rparr> = Inl OverflowError"
  by code_simp


section \<open>The next class lies within a week\<close>






section \<open>Loading the configuration\<close>

text \<open>
  Claim C3, as amended. When \<open>json.loads\<close> rejects the configured text with
  \<open>JSONDecodeError\<close>, \<open>load_schedule\<close> returns the empty mapping and prints one warning,
  and does not raise. A text that decodes is returned as decoded, whatever the value, and
  nothing is printed. The empty mapping is the empty schedule, on which
  \<open>get_next_class_date\<close> returns \<open>None\<close> for every course identifier and reference date.
\<close>

theorem load_schedule_decode_error:
  "load_schedule (Inl JSONDecodeError) = (Inr (JObject []), [Warning_MY_TIMETABLE])
   \<and> (\<forall>v. load_schedule (Inr v) = (Inr v, []))
   \<and> as_schedule (JObject []) = Some []
   \<and> (\<forall>course_code ref. get_next_class_date [] course_code ref = Inr None)"
  by (simp add: load_schedule_def get_next_class_date_def)

text \<open>
  The claim as stated, for every text that does not decode as a mapping from course keys
  to lists of weekday numbers, fails for a text that is valid JSON of another shape:
  \<^verbatim>\<open>[1, 3]\<close> decodes to a list, which is no such mapping, and \<open>load_schedule\<close> returns that
  list, not the empty mapping, and prints no warning.
\<close>

theorem load_schedule_not_a_mapping_counterexample:
  "as_schedule (JArray [JInt 1, JInt 3]) = None
   \<and> load_schedule (Inr (JArray [JInt 1, JInt 3])) = (Inr (JArray [JInt 1, JInt 3]), [])
   \<and> load_schedule (Inr (JArray [JInt 1, JInt 3])) \<noteq> (Inr (JObject []), [Warning_MY_TIMETABLE])"
  by (simp add: load_schedule_def)


section \<open>The rules of \<open>find_date_in_text\<close>\<close>

lemma explicit_match_empty: "explicit_match [] = None"
  by code_simp

lemma next_class_pattern_empty: "re_search next_class_pattern [] = None"
  by code_simp

lemma find_date_in_text_explicit:
  assumes "text \<noteq> []" and "strptime (take 10 posted) = Inr p"
    and "re_search next_class_pattern text = None \<or> get_next_class_date sched course p = Inr None"
  shows "find_date_in_text sched now text posted course = (Inr (explicit_date now text p), [])"
  using assms by (auto simp: find_date_in_text_def)

lemma explicit_date_of_match:
  assumes "explicit_match text = Some (day_str, month_str, year_str)"
  shows "explicit_date now text p
           = (case date_of_match now day_str month_str year_str of Inl e \<Rightarrow> p | Inr d \<Rightarrow> d)"
  using assms by (simp add: explicit_date_def explicit_date_try_def)

lemma date_of_match_values:
  assumes "int_py day_str = Inr day" and "month_of month_str = Inr month"
    and "year_of now year_str month = Inr year"
  shows "date_of_match now day_str month_str year_str = datetime_new year month day"
  using assms by (simp add: date_of_match_def and_then_def)

lemma no_phrase:
  "re_search next_class_pattern ''Due 3rd Oct, 2024'' = None"
  "re_search next_class_pattern ''Due Oct 3rd 2024'' = None"
  "re_search next_class_pattern ''Meet on 2 Mar'' = None"
  "re_search next_class_pattern ''Meet on 2 Sep'' = None"
  by code_simp+

lemma matches_ex:
  "explicit_match ''Due 3rd Oct, 2024'' = Some (Some ''3'', Some ''Oct'', Some ''2024'')"
  "explicit_match ''Due Oct 3rd 2024'' = Some (Some ''3'', Some ''Oct'', Some ''2024'')"
  "explicit_match ''Meet on 2 Mar'' = Some (Some ''2'', Some ''Mar'', None)"
  "explicit_match ''Meet on 2 Sep'' = Some (Some ''2'', Some ''Sep'', None)"
  by code_simp+

lemma pattern_ex:
  "re_search pattern1 ''Due 3rd Oct, 2024'' \<noteq> None"
  "re_search pattern1 ''Due Oct 3rd 2024'' = None"
  "re_search pattern2 ''Due Oct 3rd 2024'' \<noteq> None"
  by code_simp+

lemma vals:
  "int_py (Some ''3'') = Inr 3"
  "int_py (Some ''2'') = Inr 2"
  "int_py (Some ''2024'') = Inr 2024"
  "month_of (Some ''Oct'') = Inr 10"
  "month_of (Some ''Mar'') = Inr 3"
  "month_of (Some ''Sep'') = Inr 9"
  "datetime_new 2024 10 3 = Inr \<lparr>dt_year = 2024, dt_month = 10, dt_day = 3\<rparr>"
  by code_simp+

lemma year_of_explicit: "year_of now (Some ''2024'') m = Inr 2024"
  by (simp add: year_of_def vals)

text \<open>
  Claim C7. For every posted value whose first ten characters \<open>strptime\<close> reads as a date
  (by \<open>date_prefix_strptime\<close>, every value that starts with a date written \<open>YYYY-MM-DD\<close>),
  every schedule, clock and course identifier, "Due 3rd Oct, 2024" resolves to 2024-10-03
  through pattern 1 (day before month) and "Due Oct 3rd 2024" resolves to 2024-10-03 through
  pattern 2 (month before day; pattern 1 does not match it). Neither the posted date nor
  the schedule has a part in the result.
\<close>

theorem explicit_year_round_trip:
  assumes "strptime (take 10 posted) = Inr p"
  shows "find_date_in_text sched now ''Due 3rd Oct, 2024'' posted course
           = (Inr \<lparr>dt_year = 2024, dt_month = 10, dt_day = 3\<rparr>, [])
         \<and> find_date_in_text sched now ''Due Oct 3rd 2024'' posted course
           = (Inr \<lparr>dt_year = 2024, dt_month = 10, dt_day = 3\<rparr>, [])
         \<and> re_search pattern1 ''Due 3rd Oct, 2024'' \<noteq> None
         \<and> re_search pattern1 ''Due Oct 3rd 2024'' = None
         \<and> re_search pattern2 ''Due Oct 3rd 2024'' \<noteq> None"
proof -
  have d: "date_of_match now (Some ''3'') (Some ''Oct'') (Some ''2024'')
             = Inr \<lparr>dt_year = 2024, dt_month = 10, dt_day = 3\<rparr>"
    using date_of_match_values[OF vals(1) vals(4) year_of_explicit] by (simp add: vals)
  have a: "find_date_in_text sched now ''Due 3rd Oct, 2024'' posted course
             = (Inr (explicit_date now ''Due 3rd Oct, 2024'' p), [])"
    using assms no_phrase(1) by (intro find_date_in_text_explicit) simp_all
  have b: "find_date_in_text sched now ''Due Oct 3rd 2024'' posted course
             = (Inr (explicit_date now ''Due Oct 3rd 2024'' p), [])"
    using assms no_phrase(2) by (intro find_date_in_text_explicit) simp_all
  show ?thesis
    unfolding a b explicit_date_of_match[OF matches_ex(1)] explicit_date_of_match[OF matches_ex(2)] d
    using pattern_ex by simp
qed

lemma strptime_ex:
  "strptime (take 10 ''2024-01-03T10:00:00Z'') = Inr \<lparr>dt_year = 2024, dt_month = 1, dt_day = 3\<rparr>"
  using date_prefix_example by (rule date_prefix_strptime)

theorem explicit_year_round_trip_witness:
  "find_date_in_text [(''CS 363'', [1, 3])] \<lparr>dt_year = 2025, dt_month = 11, dt_day = 3\<rparr>
      ''Due 3rd Oct, 2024'' ''2024-01-03T10:00:00Z'' ''CS 363-001 Fall 2024''
     = (Inr \<lparr>dt_year = 2024, dt_month = 10, dt_day = 3\<rparr>, [])
   \<and> find_date_in_text [(''CS 363'', [1, 3])] \<lparr>dt_year = 2025, dt_month = 11, dt_day = 3\<rparr>
      ''Due Oct 3rd 2024'' ''2024-01-03T10:00:00Z'' ''CS 363-001 Fall 2024''
     = (Inr \<lparr>dt_year = 2024, dt_month = 10, dt_day = 3\<rparr>, [])"
  using explicit_year_round_trip[OF strptime_ex] by simp


lemma year_of_None:
  "year_of now None month
     = Inr (if month < dt_month now \<and> dt_month now - month > 6 then dt_year now + 1
            else dt_year now)"
  by (simp add: year_of_def)

text \<open>
  Claim C6. When the explicit-date rule is reached (the posted value is valid and the
  "next class" rule gives no date) and the match holds a day and a month but no year, the
  year is \<open>currentYear + 1\<close> exactly when \<open>month < currentMonth\<close> and
  \<open>currentMonth - month > 6\<close>, and \<open>currentYear\<close> otherwise, and the result is the date of that
  year, month and day (the posted date when they name no date). With the clock in
  November, "Meet on 2 Mar" resolves to 2 March of the next year and "Meet on 2 Sep" to
  2 September of the current year.
\<close>

theorem year_inference:
  assumes "strptime (take 10 posted) = Inr p"
  shows "(explicit_match text = Some (day_str, month_str, None)
            \<and> int_py day_str = Inr day \<and> month_of month_str = Inr month
            \<and> (re_search next_class_pattern text = None
                \<or> get_next_class_date sched course p = Inr None)
          \<longrightarrow> year_of now None month
                = Inr (if month < dt_month now \<and> dt_month now - month > 6
                       then dt_year now + 1 else dt_year now)
              \<and> find_date_in_text sched now text posted course
                = (Inr (case datetime_new
                               (if month < dt_month now \<and> dt_month now - month > 6
                                then dt_year now + 1 else dt_year now) month day of
                          Inl e \<Rightarrow> p | Inr d \<Rightarrow> d), []))
         \<and> (dt_month now = 11 \<and> valid_datetime now \<and> dt_year now < 9999
          \<longrightarrow> find_date_in_text sched now ''Meet on 2 Mar'' posted course
                = (Inr \<lparr>dt_year = dt_year now + 1, dt_month = 3, dt_day = 2\<rparr>, []))
         \<and> (dt_month now = 11 \<and> valid_datetime now
          \<longrightarrow> find_date_in_text sched now ''Meet on 2 Sep'' posted course
                = (Inr \<lparr>dt_year = dt_year now, dt_month = 9, dt_day = 2\<rparr>, []))"
proof (intro conjI impI)
  show "year_of now None month
          = Inr (if month < dt_month now \<and> dt_month now - month > 6
                 then dt_year now + 1 else dt_year now)"
    by (rule year_of_None)
next
  assume a: "explicit_match text = Some (day_str, month_str, None)
            \<and> int_py day_str = Inr day \<and> month_of month_str = Inr month
            \<and> (re_search next_class_pattern text = None
                \<or> get_next_class_date sched course p = Inr None)"
  then have "text \<noteq> []" using explicit_match_empty by auto
  with a assms have f: "find_date_in_text sched now text posted course
                          = (Inr (explicit_date now text p), [])"
    by (intro find_date_in_text_explicit) simp_all
  from a have "date_of_match now day_str month_str None
                 = datetime_new (if month < dt_month now \<and> dt_month now - month > 6
                                 then dt_year now + 1 else dt_year now) month day"
    by (intro date_of_match_values) (simp_all add: year_of_None)
  with a show "find_date_in_text sched now text posted course
                = (Inr (case datetime_new
                               (if month < dt_month now \<and> dt_month now - month > 6
                                then dt_year now + 1 else dt_year now) month day of
                          Inl e \<Rightarrow> p | Inr d \<Rightarrow> d), [])"
    by (simp add: f explicit_date_of_match)
next
  assume n: "dt_month now = 11 \<and> valid_datetime now \<and> dt_year now < 9999"
  have f: "find_date_in_text sched now ''Meet on 2 Mar'' posted course
             = (Inr (explicit_date now ''Meet on 2 Mar'' p), [])"
    using assms no_phrase(3) by (intro find_date_in_text_explicit) simp_all
  have y: "year_of now None 3 = Inr (dt_year now + 1)" using n by (simp add: year_of_None)
  have "valid_date (dt_year now + 1) 3 2"
    using n by (simp add: valid_datetime_def valid_date_def days_in_month_def DAYS_IN_MONTH_def)
  then have "date_of_match now (Some ''2'') (Some ''Mar'') None
          = Inr \<lparr>dt_year = dt_year now + 1, dt_month = 3, dt_day = 2\<rparr>"
    using date_of_match_values[OF vals(2) vals(5) y] by (simp add: datetime_new_def)
  then show "find_date_in_text sched now ''Meet on 2 Mar'' posted course
                = (Inr \<lparr>dt_year = dt_year now + 1, dt_month = 3, dt_day = 2\<rparr>, [])"
    by (simp add: f explicit_date_of_match[OF matches_ex(3)])
next
  assume n: "dt_month now = 11 \<and> valid_datetime now"
  have f: "find_date_in_text sched now ''Meet on 2 Sep'' posted course
             = (Inr (explicit_date now ''Meet on 2 Sep'' p), [])"
    using assms no_phrase(4) by (intro find_date_in_text_explicit) simp_all
  have y: "year_of now None 9 = Inr (dt_year now)" using n by (simp add: year_of_None)
  have "valid_date (dt_year now) 9 2"
    using n by (simp add: valid_datetime_def valid_date_def days_in_month_def DAYS_IN_MONTH_def)
  then have "date_of_match now (Some ''2'') (Some ''Sep'') None
          = Inr \<lparr>dt_year = dt_year now, dt_month = 9, dt_day = 2\<rparr>"
    using date_of_match_values[OF vals(2) vals(6) y] by (simp add: datetime_new_def)
  then show "find_date_in_text sched now ''Meet on 2 Sep'' posted course
                = (Inr \<lparr>dt_year = dt_year now, dt_month = 9, dt_day = 2\<rparr>, [])"
    by (simp add: f explicit_date_of_match[OF matches_ex(4)])
qed

lemma C6_wit:
  "valid_datetime \<lparr>dt_year = 2025, dt_month = 11, dt_day = 3\<rparr>"
  "explicit_match ''Exam on 14th May'' = Some (Some ''14'', Some ''May'', None)"
  "int_py (Some ''14'') = Inr 14"
  "month_of (Some ''May'') = Inr 5"
  "re_search next_class_pattern ''Exam on 14th May'' = None"
  "datetime_new 2025 5 14 = Inr \<lparr>dt_year = 2025, dt_month = 5, dt_day = 14\<rparr>"
  by code_simp+

theorem year_inference_witness:
  "find_date_in_text [(''CS 363'', [1, 3])] \<lparr>dt_year = 2025, dt_month = 11, dt_day = 3\<rparr>
      ''Meet on 2 Mar'' ''2024-01-03T10:00:00Z'' ''CS 363-001 Fall 2024''
     = (Inr \<lparr>dt_year = 2026, dt_month = 3, dt_day = 2\<rparr>, [])
   \<and> find_date_in_text [(''CS 363'', [1, 3])] \<lparr>dt_year = 2025, dt_month = 11, dt_day = 3\<rparr>
      ''Meet on 2 Sep'' ''2024-01-03T10:00:00Z'' ''CS 363-001 Fall 2024''
     = (Inr \<lparr>dt_year = 2025, dt_month = 9, dt_day = 2\<rparr>, [])
   \<and> find_date_in_text [(''CS 363'', [1, 3])] \<lparr>dt_year = 2025, dt_month = 11, dt_day = 3\<rparr>
      ''Exam on 14th May'' ''2024-01-03T10:00:00Z'' ''CS 363-001 Fall 2024''
     = (Inr \<lparr>dt_year = 2025, dt_month = 5, dt_day = 14\<rparr>, [])"
  using year_inference[OF strptime_ex, of "''Exam on 14th May''" "Some ''14''" "Some ''May''" 14 5
      "[(''CS 363'', [1, 3])]" "''CS 363-001 Fall 2024''"
      "\<lparr>dt_year = 2025, dt_month = 11, dt_day = 3\<rparr>"]
  by (simp add: C6_wit)

text \<open>
  Claim C8, as amended. When the explicit-date rule is reached, that is, when the text
  does not hold the "next class" phrase or \<open>get_next_class_date\<close> returns \<open>None\<close>, and the
  year, month and day taken from the match are not a date of the calendar,
  \<open>datetime(year, month, day)\<close> raises \<open>ValueError\<close>, the handler takes over, and
  \<open>find_date_in_text\<close> returns the date parsed from the first ten characters of the posted
  value; nothing is raised.
\<close>

theorem invalid_date_falls_back:
  assumes "strptime (take 10 posted) = Inr p"
    and "re_search next_class_pattern text = None
         \<or> get_next_class_date sched course p = Inr None"
    and "explicit_match text = Some (day_str, month_str, year_str)"
    and "int_py day_str = Inr day" and "month_of month_str = Inr month"
    and "year_of now year_str month = Inr year"
    and "\<not> valid_date year month day"
  shows "datetime_new year month day = Inl ValueError
         \<and> find_date_in_text sched now text posted course = (Inr p, [])"
proof -
  from assms(3) have "text \<noteq> []" using explicit_match_empty by auto
  with assms(1,2) have f: "find_date_in_text sched now text posted course
                          = (Inr (explicit_date now text p), [])"
    by (intro find_date_in_text_explicit) simp_all
  have v: "datetime_new year month day = Inl ValueError"
    using assms(7) by (simp add: datetime_new_def)
  have "date_of_match now day_str month_str year_str = datetime_new year month day"
    using assms(4-6) by (rule date_of_match_values)
  with v show ?thesis by (simp add: f explicit_date_of_match[OF assms(3)])
qed

lemma C8_wit:
  "re_search next_class_pattern ''Party on 31 Apr 2024'' = None"
  "explicit_match ''Party on 31 Apr 2024'' = Some (Some ''31'', Some ''Apr'', Some ''2024'')"
  "int_py (Some ''31'') = Inr 31"
  "month_of (Some ''Apr'') = Inr 4"
  "\<not> valid_date 2024 4 31"
  by code_simp+

theorem invalid_date_falls_back_witness:
  "find_date_in_text [(''CS 363'', [1, 3])] \<lparr>dt_year = 2025, dt_month = 11, dt_day = 3\<rparr>
      ''Party on 31 Apr 2024'' ''2024-01-03T10:00:00Z'' ''CS 363-001 Fall 2024''
     = (Inr \<lparr>dt_year = 2024, dt_month = 1, dt_day = 3\<rparr>, [])"
  using invalid_date_falls_back[OF strptime_ex disjI1[OF C8_wit(1)] C8_wit(2) C8_wit(3) C8_wit(4)
      year_of_explicit C8_wit(5)]
  by simp

text \<open>
  The claim as stated, for every text whose explicit-date match is no date of the
  calendar, fails where the "next class" rule, which comes first, gives its own answer.
  "See you next class, 31 Apr 2024" holds the match 31, Apr, 2024, which is no date; for
  the course "CS 363" with classes on Tuesday and Thursday and the posted date
  2024-01-03, a Wednesday, the result is the next class day 2024-01-04, not the posted
  date; with an empty weekday list for the course, \<open>IndexError\<close> is raised.
\<close>

theorem invalid_date_next_class_counterexample:
  "explicit_match ''See you next class, 31 Apr 2024''
     = Some (Some ''31'', Some ''Apr'', Some ''2024'')
   \<and> int_py (Some ''31'') = Inr 31 \<and> month_of (Some ''Apr'') = Inr 4
   \<and> year_of \<lparr>dt_year = 2025, dt_month = 11, dt_day = 3\<rparr> (Some ''2024'') 4 = Inr 2024
   \<and> \<not> valid_date 2024 4 31
   \<and> strptime (take 10 ''2024-01-03T10:00:00Z'')
       = Inr \<lparr>dt_year = 2024, dt_month = 1, dt_day = 3\<rparr>
   \<and> find_date_in_text [(''CS 363'', [1, 3])] \<lparr>dt_year = 2025, dt_month = 11, dt_day = 3\<rparr>
        ''See you next class, 31 Apr 2024'' ''2024-01-03T10:00:00Z'' ''CS 363-001 Fall 2024''
       = (Inr \<lparr>dt_year = 2024, dt_month = 1, dt_day = 4\<rparr>,
          [Found_Next_Class ''CS 363-001 Fall 2024''
             \<lparr>dt_year = 2024, dt_month = 1, dt_day = 4\<rparr>])
   \<and> find_date_in_text [(''CS 363'', [])] \<lparr>dt_year = 2025, dt_month = 11, dt_day = 3\<rparr>
        ''See you next class, 31 Apr 2024'' ''2024-01-03T10:00:00Z'' ''CS 363-001 Fall 2024''
       = (Inl IndexError, [])"
  by code_simp

text \<open>
  Claim C5. For a text in which the pattern for "next class", "next lecture" or
  "next session" is found (by \<open>next_phrase_found\<close>, every text that holds the whole word
  "next", whitespace and one of the three words, in any case), and a valid posted value:
  when \<open>get_next_class_date\<close> returns a date for the course and the posted date,
  \<open>find_date_in_text\<close> returns that date (and prints it), whatever explicit date the text
  holds; when it returns \<open>None\<close>, the result is that of the explicit-date rule.
\<close>

theorem next_class_rule_first:
  assumes "strptime (take 10 posted) = Inr p"
    and "re_search next_class_pattern text \<noteq> None"
  shows "(\<forall>d. get_next_class_date sched course p = Inr (Some d)
            \<longrightarrow> find_date_in_text sched now text posted course
                  = (Inr d, [Found_Next_Class course d]))
         \<and> (get_next_class_date sched course p = Inr None
            \<longrightarrow> find_date_in_text sched now text posted course
                  = (Inr (explicit_date now text p), []))"
proof -
  from assms(2) have "text \<noteq> []" using next_class_pattern_empty by auto
  with assms show ?thesis by (simp add: find_date_in_text_def)
qed

lemma phrase_example_parts:
  "''Quiz moved to Next  Class, not 5 Oct 2024''
          = ''Quiz moved to '' @ ''Next'' @ ''  '' @ ''Class'' @ '', not 5 Oct 2024''"
  "map lower ''Next'' = ''next''"
  "list_all is_space ''  ''"
  "map lower ''Class'' = ''class''"
  "\<not> word_before (last_char None ''Quiz moved to '')"
  "\<not> word_after '', not 5 Oct 2024''"
  by code_simp+

lemma phrase_example: "contains_next_phrase ''Quiz moved to Next  Class, not 5 Oct 2024''"
  unfolding contains_next_phrase_def
  apply (rule exI[of _ "''Quiz moved to ''"])
  apply (rule exI[of _ "''Next''"])
  apply (rule exI[of _ "''  ''"])
  apply (rule exI[of _ "''Class''"])
  apply (rule exI[of _ "'', not 5 Oct 2024''"])
  apply (intro conjI disjI1)
        apply (rule phrase_example_parts(1))
       apply (rule phrase_example_parts(2))
      apply simp
     apply (rule phrase_example_parts(3))
    apply (rule phrase_example_parts(4))
   apply (rule phrase_example_parts(5))
  apply (rule phrase_example_parts(6))
  done

lemma phrase_example_found:
  "re_search next_class_pattern ''Quiz moved to Next  Class, not 5 Oct 2024'' \<noteq> None"
  using phrase_example by (rule next_phrase_found)

lemma C5_wit:
  "explicit_match ''Quiz moved to Next  Class, not 5 Oct 2024''
     = Some (Some ''5'', Some ''Oct'', Some ''2024'')"
  "get_next_class_date [(''CS 363'', [1, 3])] ''CS 363-001 Fall 2024''
      \<lparr>dt_year = 2024, dt_month = 1, dt_day = 3\<rparr>
     = Inr (Some \<lparr>dt_year = 2024, dt_month = 1, dt_day = 4\<rparr>)"
  "get_next_class_date [(''CS 363'', [1, 3])] ''MATH 205''
      \<lparr>dt_year = 2024, dt_month = 1, dt_day = 3\<rparr> = Inr None"
  "explicit_date \<lparr>dt_year = 2025, dt_month = 11, dt_day = 3\<rparr>
      ''Quiz moved to Next  Class, not 5 Oct 2024'' \<lparr>dt_year = 2024, dt_month = 1, dt_day = 3\<rparr>
     = \<lparr>dt_year = 2024, dt_month = 10, dt_day = 5\<rparr>"
  by code_simp+

theorem next_class_rule_first_witness:
  "find_date_in_text [(''CS 363'', [1, 3])] \<lparr>dt_year = 2025, dt_month = 11, dt_day = 3\<rparr>
      ''Quiz moved to Next  Class, not 5 Oct 2024'' ''2024-01-03T10:00:00Z''
      ''CS 363-001 Fall 2024''
     = (Inr \<lparr>dt_year = 2024, dt_month = 1, dt_day = 4\<rparr>,
        [Found_Next_Class ''CS 363-001 Fall 2024'' \<lparr>dt_year = 2024, dt_month = 1, dt_day = 4\<rparr>])
   \<and> find_date_in_text [(''CS 363'', [1, 3])] \<lparr>dt_year = 2025, dt_month = 11, dt_day = 3\<rparr>
      ''Quiz moved to Next  Class, not 5 Oct 2024'' ''2024-01-03T10:00:00Z'' ''MATH 205''
     = (Inr \<lparr>dt_year = 2024, dt_month = 10, dt_day = 5\<rparr>, [])"
  using next_class_rule_first[OF strptime_ex phrase_example_found, of "[(''CS 363'', [1, 3])]"
      "''CS 363-001 Fall 2024''" "\<lparr>dt_year = 2025, dt_month = 11, dt_day = 3\<rparr>"]
    next_class_rule_first[OF strptime_ex phrase_example_found, of "[(''CS 363'', [1, 3])]"
      "''MATH 205''" "\<lparr>dt_year = 2025, dt_month = 11, dt_day = 3\<rparr>"]
  by (simp add: C5_wit)


section \<open>Totality\<close>

lemma datetime_new_valid: "datetime_new y m d = Inr t \<Longrightarrow> valid_datetime t"
  by (auto simp: datetime_new_def valid_datetime_def split: if_splits)

lemma strptime_valid: "strptime s = Inr p \<Longrightarrow> valid_datetime p"
  by (auto simp: strptime_def and_then_def dest: datetime_new_valid
      split: list.splits if_splits sum.splits)

lemma explicit_date_valid:
  assumes "valid_datetime p"
  shows "valid_datetime (explicit_date now text p)"
proof (cases "explicit_date_try now text p")
  case (Inl e)
  with assms show ?thesis by (simp add: explicit_date_def)
next
  case (Inr d)
  then have "d = p \<or> (\<exists>y m d'. datetime_new y m d' = Inr d)"
    by (auto simp: explicit_date_try_def date_of_match_def and_then_def
        split: option.splits sum.splits)
  with assms have "valid_datetime d" by (auto dest: datetime_new_valid)
  with Inr show ?thesis by (simp add: explicit_date_def)
qed

lemma get_next_class_date_well_formed:
  assumes "list_all (\<lambda>(k, ds). ds \<noteq> [] \<and> list_all (\<lambda>d. 0 \<le> d \<and> d \<le> 6) ds) sched"
    and "valid_datetime p" and "toordinal p + 7 \<le> MAXORDINAL"
  shows "get_next_class_date sched course p = Inr None
         \<or> (\<exists>r. get_next_class_date sched course p = Inr (Some r) \<and> valid_datetime r)"
proof (cases "base_code_loop sched course")
  case None
  then show ?thesis by (simp add: get_next_class_date_def)
next
  case (Some key)
  show ?thesis
  proof (cases "key = []")
    case True
    with Some show ?thesis by (simp add: get_next_class_date_def)
  next
    case False
    from base_code_loop_Some[OF Some] obtain ds where
      ds: "map_of sched key = Some ds" "(key, ds) \<in> set sched" by blast
    with assms(1) have ne: "ds \<noteq> []" and rng: "\<forall>d \<in> set ds. 0 \<le> d \<and> d \<le> 6"
      by (auto simp: list_all_iff)
    define off where "off = next_class_offset ds (weekday p)"
    have g: "get_next_class_date sched course p = map_sum id Some (add_days p off)"
      unfolding off_def using Some False ds(1) ne by (rule get_next_class_date_matched)
    have b: "1 \<le> off \<and> off \<le> 7"
      unfolding off_def using ne rng weekday_range[of p]
      by (intro next_class_offset_bounds) simp_all
    have "1 \<le> toordinal p" using assms(2) by (rule toordinal_pos)
    with b assms(3) have r: "1 \<le> toordinal p + off" "toordinal p + off \<le> MAXORDINAL"
      by linarith+
    then have "add_days p off = Inr (fromordinal (toordinal p + off))"
      by (intro add_days_ok) simp_all
    moreover have "valid_datetime (fromordinal (toordinal p + off))"
      using r by (rule fromordinal_valid)
    ultimately show ?thesis by (simp add: g)
  qed
qed

text \<open>
  Claim C1, as amended. For every text that is not empty and every posted value whose
  first ten characters \<open>strptime\<close> reads as a date (by \<open>date_prefix_strptime\<close>, every value
  that starts with a date written \<open>YYYY-MM-DD\<close>), \<open>find_date_in_text\<close> returns a date of
  the calendar and raises nothing, provided that, when the text holds the "next class"
  phrase, every stored weekday list is non-empty with indices from 0 to 6 and the posted
  date is at least seven days before 9999-12-31. Nothing is said here about the empty
  text, which is the subject of claim C2.
\<close>

theorem find_date_in_text_total:
  assumes "text \<noteq> []" and "strptime (take 10 posted) = Inr p"
    and "re_search next_class_pattern text = None
         \<or> (list_all (\<lambda>(k, ds). ds \<noteq> [] \<and> list_all (\<lambda>d. 0 \<le> d \<and> d \<le> 6) ds) sched
            \<and> toordinal p + 7 \<le> MAXORDINAL)"
  shows "\<exists>d. fst (find_date_in_text sched now text posted course) = Inr d \<and> valid_datetime d"
proof -
  have vp: "valid_datetime p" using assms(2) by (rule strptime_valid)
  then have ve: "valid_datetime (explicit_date now text p)" by (rule explicit_date_valid)
  show ?thesis
  proof (cases "re_search next_class_pattern text = None")
    case True
    with assms(1,2) ve show ?thesis by (simp add: find_date_in_text_def)
  next
    case False
    with assms(3) have
      "get_next_class_date sched course p = Inr None
       \<or> (\<exists>r. get_next_class_date sched course p = Inr (Some r) \<and> valid_datetime r)"
      using vp by (intro get_next_class_date_well_formed) simp_all
    with assms(1,2) ve False show ?thesis by (auto simp: find_date_in_text_def)
  qed
qed

lemma C1_wit:
  "re_search next_class_pattern ''See you next class'' \<noteq> None"
  "list_all (\<lambda>(k, ds). ds \<noteq> [] \<and> list_all (\<lambda>d. 0 \<le> d \<and> d \<le> 6) ds) [(''CS 363'', [1, 3 :: int])]"
  "toordinal \<lparr>dt_year = 2024, dt_month = 1, dt_day = 3\<rparr> + 7 \<le> MAXORDINAL"
  "fst (find_date_in_text [(''CS 363'', [1, 3])] \<lparr>dt_year = 2025, dt_month = 11, dt_day = 3\<rparr>
      ''See you next class'' ''2024-01-03T10:00:00Z'' ''CS 363-001 Fall 2024'')
     = Inr \<lparr>dt_year = 2024, dt_month = 1, dt_day = 4\<rparr>"
  "valid_datetime \<lparr>dt_year = 2024, dt_month = 1, dt_day = 4\<rparr>"
  by code_simp+

theorem find_date_in_text_total_witness:
  "''See you next class'' \<noteq> []
   \<and> fst (find_date_in_text [(''CS 363'', [1, 3])] \<lparr>dt_year = 2025, dt_month = 11, dt_day = 3\<rparr>
      ''See you next class'' ''2024-01-03T10:00:00Z'' ''CS 363-001 Fall 2024'')
     = Inr \<lparr>dt_year = 2024, dt_month = 1, dt_day = 4\<rparr>
   \<and> valid_datetime \<lparr>dt_year = 2024, dt_month = 1, dt_day = 4\<rparr>"
  using find_date_in_text_total[OF _ strptime_ex disjI2[OF conjI[OF C1_wit(2) C1_wit(3)]],
      of "''See you next class''" "\<lparr>dt_year = 2025, dt_month = 11, dt_day = 3\<rparr>"
      "''CS 363-001 Fall 2024''"]
  by (simp add: C1_wit)

text \<open>
  The claim as stated, for every text and every valid posted value, fails in three ways,
  each with a posted value whose first ten characters are a date. The empty text with a
  timestamp raises \<open>ValueError\<close>, since the whole value is parsed. With the "next class"
  phrase in the text, which is handled before the \<open>try\<close> statement, a matched course with
  an empty weekday list raises \<open>IndexError\<close>, and a posted date of 9999-12-31 raises
  \<open>OverflowError\<close>.
\<close>

theorem find_date_in_text_raises_counterexample:
  "strptime (take 10 ''2024-10-03T08:15:00Z'') = Inr \<lparr>dt_year = 2024, dt_month = 10, dt_day = 3\<rparr>
   \<and> fst (find_date_in_text [(''CS 363'', [1, 3])] \<lparr>dt_year = 2025, dt_month = 11, dt_day = 3\<rparr>
        [] ''2024-10-03T08:15:00Z'' ''CS 363-001 Fall 2024'') = Inl ValueError
   \<and> fst (find_date_in_text [(''CS 363'', [])] \<lparr>dt_year = 2025, dt_month = 11, dt_day = 3\<rparr>
        ''See you next class'' ''2024-10-03T08:15:00Z'' ''CS 363-001 Fall 2024'') = Inl IndexError
   \<and> strptime (take 10 ''9999-12-31T08:15:00Z'') = Inr \<lparr>dt_year = 9999, dt_month = 12, dt_day = 31\<rparr>
   \<and> fst (find_date_in_text [(''CS 363'', [1, 3])] \<lparr>dt_year = 2025, dt_month = 11, dt_day = 3\<rparr>
        ''See you next class'' ''9999-12-31T08:15:00Z'' ''CS 363-001 Fall 2024'') = Inl OverflowError"
  by code_simp

lemma empty_text_posted:
  assumes "date_prefix posted t"
  shows "find_date_in_text sched now [] posted course
           = (if length posted = 10 then Inr t else Inl ValueError, [])"
  using date_prefix_strptime(2)[OF assms] by (simp add: find_date_in_text_def)

text \<open>
  Claim C2, which the code does not meet. On the empty text, line 57 parses the whole
  posted value where line 59 parses its first ten characters: for the timestamp
  "2024-01-03T10:00:00Z", whose first ten characters are the date 2024-01-03, the call
  raises \<open>ValueError\<close> instead of returning that date. A posted value of exactly the ten
  characters is returned as its date. By \<open>empty_text_posted\<close> this is so for every posted
  value that starts with a date: the date is returned only when nothing follows it.
\<close>

theorem empty_text_reads_whole_posted_value:
  "strptime (take 10 ''2024-01-03T10:00:00Z'') = Inr \<lparr>dt_year = 2024, dt_month = 1, dt_day = 3\<rparr>
   \<and> find_date_in_text sched now [] ''2024-01-03T10:00:00Z'' course = (Inl ValueError, [])
   \<and> find_date_in_text sched now [] ''2024-01-03'' course
       = (Inr \<lparr>dt_year = 2024, dt_month = 1, dt_day = 3\<rparr>, [])"
proof -
  have "strptime ''2024-01-03T10:00:00Z'' = Inl ValueError" by code_simp
  moreover have "strptime ''2024-01-03'' = Inr \<lparr>dt_year = 2024, dt_month = 1, dt_day = 3\<rparr>"
    by code_simp
  ultimately show ?thesis using strptime_ex by (simp add: find_date_in_text_def)
qed

end
